theory Spec2Isabelle
  imports Complex_Main
begin

section \<open>Ligand preparation: conversion fallback and repositioning\<close>

text \<open>
  A shallow embedding of \<^verbatim>\<open>prepare_ligands.py\<close>: the functions
  \<^verbatim>\<open>convert_pdb_to_pdbqt\<close> and \<^verbatim>\<open>reposition_ligand\<close>, together with the Python
  built-ins they rest on (\<^verbatim>\<open>float\<close> on a string, the format specification
  \<^verbatim>\<open>8.3f\<close>, slicing, \<^verbatim>\<open>str.startswith\<close>, \<^verbatim>\<open>readlines\<close>, \<^verbatim>\<open>writelines\<close>,
  \<^verbatim>\<open>subprocess.run\<close> with \<^verbatim>\<open>check=True\<close>, \<^verbatim>\<open>os.path.exists\<close>).

  Modelling decisions, all of them visible in the definitions below:
  \<^item> Text is a list of 8-bit characters, read as code points below 256. A file's content
    is the text Python's text mode delivers (decoded, line ends translated to a line feed).
  \<^item> A Python float is a value of \<open>pyfloat\<close>: an exact rational, negative zero, an
    infinity or NaN. Signs of zero and the non-finite values follow IEEE 754; rounding to
    53 bits of precision and the binary64 exponent range are not modelled, so arithmetic on
    finite values is exact.
  \<^item> An exception is a value: every operation that can raise returns \<open>exn + 'a\<close>.
  \<^item> The file system and the external tools are explicit: a \<open>filesystem\<close> record that is
    passed and returned, and a \<open>shell\<close> function that says what a command line does.
  \<^item> Console output (\<^verbatim>\<open>print\<close>) is not modelled.
\<close>

subsection \<open>Exceptions and the file system\<close>

datatype exn = OSError | ValueError | IndexError | ZeroDivisionError | CalledProcessError int

text \<open>
  \<open>contents\<close> maps each existing path to its text. \<open>unreadable\<close> marks the paths at which
  \<^verbatim>\<open>open(p, 'r')\<close> or the reading raises although the path exists (no permission, a
  directory, bytes that do not decode); \<open>unwritable\<close> marks the paths at which
  \<^verbatim>\<open>open(p, 'w')\<close> raises (no permission, a directory, a missing parent). One exception
  value, \<open>OSError\<close>, stands for all of them: the program does not tell them apart.
\<close>

record filesystem =
  contents :: "string \<rightharpoonup> string"
  unreadable :: "string \<Rightarrow> bool"
  unwritable :: "string \<Rightarrow> bool"

definition path_exists :: "filesystem \<Rightarrow> string \<Rightarrow> bool" where
  "path_exists fs p = (contents fs p \<noteq> None)"

definition read_text :: "filesystem \<Rightarrow> string \<Rightarrow> exn + string" where
  "read_text fs p =
     (if unreadable fs p then Inl OSError
      else case contents fs p of None \<Rightarrow> Inl OSError | Some txt \<Rightarrow> Inr txt)"

definition write_text :: "filesystem \<Rightarrow> string \<Rightarrow> string \<Rightarrow> exn + filesystem" where
  "write_text fs p txt =
     (if unwritable fs p then Inl OSError
      else Inr (fs\<lparr>contents := (contents fs)(p \<mapsto> txt)\<rparr>))"

subsection \<open>External commands\<close>

text \<open>
  A \<open>shell\<close> says what running a command line does to the file system and how it ends:
  \<open>Inr rc\<close> is the exit status, \<open>Inl e\<close> an exception raised while starting the process.
  \<^verbatim>\<open>subprocess.run(cmd, shell=True, check=True, ...)\<close> raises \<^verbatim>\<open>ValueError\<close> on a command
  with an embedded NUL character before anything runs, and \<^verbatim>\<open>CalledProcessError\<close> on a
  non-zero exit status.
\<close>

type_synonym shell = "string \<Rightarrow> filesystem \<Rightarrow> (exn + int) \<times> filesystem"

definition subprocess_run :: "shell \<Rightarrow> string \<Rightarrow> filesystem \<Rightarrow> (exn + unit) \<times> filesystem" where
  "subprocess_run sh cmd fs =
     (if CHR 0x00 \<in> set cmd then (Inl ValueError, fs)
      else case sh cmd fs of
             (Inl e, fs') \<Rightarrow> (Inl e, fs')
           | (Inr rc, fs') \<Rightarrow> if rc = 0 then (Inr (), fs') else (Inl (CalledProcessError rc), fs'))"

definition dq :: string where "dq = [CHR 0x22]"
definition sq :: string where "sq = [CHR 0x27]"
definition nl :: string where "nl = [CHR 0x0A]"

definition cmd_prepare_ligand4 :: "string \<Rightarrow> string \<Rightarrow> string" where
  "cmd_prepare_ligand4 pdb_file pdbqt_file =
     ''prepare_ligand4.py -l '' @ dq @ pdb_file @ dq @ '' -o '' @ dq @ pdbqt_file @ dq
       @ '' -A hydrogens -U nphs_lps''"

definition cmd_obabel :: "string \<Rightarrow> string \<Rightarrow> string" where
  "cmd_obabel pdb_file pdbqt_file =
     ''obabel '' @ dq @ pdb_file @ dq @ '' -opdbqt -O '' @ dq @ pdbqt_file @ dq
       @ '' --partialcharge gasteiger''"

definition cmd_pythonsh :: "string \<Rightarrow> string \<Rightarrow> string" where
  "cmd_pythonsh pdb_file pdbqt_file =
     ''pythonsh -c '' @ dq @ nl
     @ ''import sys'' @ nl
     @ ''sys.path.append('' @ sq @ ''/usr/local/lib/python2.7/site-packages/'' @ sq @ '')'' @ nl
     @ ''from AutoDockTools.MoleculePreparation import AD4LigandPreparation'' @ nl
     @ ''prep = AD4LigandPreparation()'' @ nl
     @ ''prep.prepare_ligand('' @ sq @ pdb_file @ sq @ '', outputfilename='' @ sq @ pdbqt_file @ sq
     @ '', repairs='' @ sq @ ''checkhydrogens'' @ sq @ '', charges_to_add='' @ sq @ ''gasteiger'' @ sq
     @ '')'' @ nl @ dq"

text \<open>
  One \<^verbatim>\<open>try\<close> block of \<^verbatim>\<open>convert_pdb_to_pdbqt\<close>: run the command; when it returns, test
  that the artifact exists; \<^verbatim>\<open>except subprocess.CalledProcessError: pass\<close>. \<open>Inr True\<close>
  is the \<^verbatim>\<open>return True\<close>, \<open>Inr False\<close> is falling out of the block, \<open>Inl e\<close> is an
  exception that the handler does not catch.
\<close>

definition try_method :: "shell \<Rightarrow> string \<Rightarrow> string \<Rightarrow> filesystem \<Rightarrow> (exn + bool) \<times> filesystem" where
  "try_method sh cmd pdbqt_file fs =
     (case subprocess_run sh cmd fs of
        (Inr u, fs') \<Rightarrow> (Inr (path_exists fs' pdbqt_file), fs')
      | (Inl (CalledProcessError rc), fs') \<Rightarrow> (Inr False, fs')
      | (Inl e, fs') \<Rightarrow> (Inl e, fs'))"

definition convert_pdb_to_pdbqt ::
  "shell \<Rightarrow> string \<Rightarrow> string \<Rightarrow> filesystem \<Rightarrow> (exn + bool) \<times> filesystem" where
  "convert_pdb_to_pdbqt sh pdb_file pdbqt_file fs =
     (case try_method sh (cmd_prepare_ligand4 pdb_file pdbqt_file) pdbqt_file fs of
        (Inl e, fs1) \<Rightarrow> (Inl e, fs1)
      | (Inr True, fs1) \<Rightarrow> (Inr True, fs1)
      | (Inr False, fs1) \<Rightarrow>
     (case try_method sh (cmd_obabel pdb_file pdbqt_file) pdbqt_file fs1 of
        (Inl e, fs2) \<Rightarrow> (Inl e, fs2)
      | (Inr True, fs2) \<Rightarrow> (Inr True, fs2)
      | (Inr False, fs2) \<Rightarrow>
     (case try_method sh (cmd_pythonsh pdb_file pdbqt_file) pdbqt_file fs2 of
        (Inl e, fs3) \<Rightarrow> (Inl e, fs3)
      | (Inr True, fs3) \<Rightarrow> (Inr True, fs3)
      | (Inr False, fs3) \<Rightarrow> (Inr False, fs3))))"

text \<open>
  The fallback policy in the specification's words: go through the strategies in order; a
  strategy succeeds when its process exits with status 0 and the artifact exists afterwards;
  stop at the first success; report failure when the list is exhausted.
\<close>

fun first_success :: "shell \<Rightarrow> string list \<Rightarrow> string \<Rightarrow> filesystem \<Rightarrow> bool \<times> filesystem" where
  "first_success sh [] artifact fs = (False, fs)"
| "first_success sh (cmd # cmds) artifact fs =
     (case sh cmd fs of
        (r, fs') \<Rightarrow> if r = Inr 0 \<and> path_exists fs' artifact then (True, fs')
                    else first_success sh cmds artifact fs')"


subsection \<open>Floats\<close>

text \<open>
  \<open>Fin q\<close> is the finite value \<open>q\<close> (\<open>Fin 0\<close> is positive zero), \<open>NegZero\<close> is \<^verbatim>\<open>-0.0\<close>,
  \<open>Infty neg\<close> an infinity with its sign, \<open>NaN\<close> not-a-number. Addition and subtraction
  give the sign of a zero result as IEEE 754 does under round-to-nearest: an exact zero sum
  is positive unless both operands are negative zero.
\<close>

datatype pyfloat = Fin rat | NegZero | Infty bool | NaN

fun fneg :: "pyfloat \<Rightarrow> pyfloat" where
  "fneg (Fin q) = (if q = 0 then NegZero else Fin (- q))"
| "fneg NegZero = Fin 0"
| "fneg (Infty neg) = Infty (\<not> neg)"
| "fneg NaN = NaN"

fun fadd :: "pyfloat \<Rightarrow> pyfloat \<Rightarrow> pyfloat" where
  "fadd NaN y = NaN"
| "fadd x NaN = NaN"
| "fadd (Infty a) (Infty b) = (if a = b then Infty a else NaN)"
| "fadd (Infty a) y = Infty a"
| "fadd x (Infty b) = Infty b"
| "fadd NegZero y = y"
| "fadd x NegZero = x"
| "fadd (Fin a) (Fin b) = Fin (a + b)"

definition fsub :: "pyfloat \<Rightarrow> pyfloat \<Rightarrow> pyfloat" where
  "fsub x y = fadd x (fneg y)"

text \<open>\<^verbatim>\<open>total / len(coords)\<close>: a float divided by a list length.\<close>

fun fdiv_len :: "pyfloat \<Rightarrow> nat \<Rightarrow> exn + pyfloat" where
  "fdiv_len x 0 = Inl ZeroDivisionError"
| "fdiv_len (Fin q) n = Inr (Fin (q / of_nat n))"
| "fdiv_len x n = Inr x"

text \<open>\<^verbatim>\<open>sum(...)\<close> of floats starts from the integer 0, which the first addition turns
  into positive zero.\<close>

definition fsum :: "pyfloat list \<Rightarrow> pyfloat" where
  "fsum xs = foldl fadd (Fin 0) xs"

subsection \<open>Characters and decimal digits\<close>

definition is_digit :: "char \<Rightarrow> bool" where
  "is_digit c = (48 \<le> (of_char c :: nat) \<and> (of_char c :: nat) \<le> 57)"

text \<open>The white space that \<^verbatim>\<open>float\<close> strips: the ASCII white space, and the two Latin-1
  spaces (next line, no-break space) that it first turns into a blank.\<close>

definition is_space :: "char \<Rightarrow> bool" where
  "is_space c = ((9 \<le> (of_char c :: nat) \<and> (of_char c :: nat) \<le> 13) \<or> c = CHR '' ''
                 \<or> c = CHR 0x85 \<or> c = CHR 0xA0)"

definition ascii_lower :: "char \<Rightarrow> char" where
  "ascii_lower c = (if 65 \<le> (of_char c :: nat) \<and> (of_char c :: nat) \<le> 90
                    then char_of ((of_char c :: nat) + 32) else c)"

definition digit_val :: "char \<Rightarrow> nat" where
  "digit_val c = of_char c - 48"

definition digit_char :: "nat \<Rightarrow> char" where
  "digit_char d = char_of (48 + d)"

definition nat_of_digits :: "string \<Rightarrow> nat" where
  "nat_of_digits ds = foldl (\<lambda>acc c. 10 * acc + digit_val c) 0 ds"

fun digits_of :: "nat \<Rightarrow> string" where
  "digits_of n = (if n < 10 then [digit_char n] else digits_of (n div 10) @ [digit_char (n mod 10)])"

subsection \<open>\<^verbatim>\<open>float(s)\<close> on a string\<close>

text \<open>
  Python accepts, after stripping white space: an optional sign followed by \<^verbatim>\<open>inf\<close>,
  \<^verbatim>\<open>infinity\<close> or \<^verbatim>\<open>nan\<close> in any letter case, or by a decimal number (digits with an
  optional point, at least one digit) and an optional exponent. An underscore may stand
  between two digits. Anything else raises \<^verbatim>\<open>ValueError\<close>.
\<close>

fun drop_underscores :: "char \<Rightarrow> string \<Rightarrow> string option" where
  "drop_underscores prev [] = (if prev = CHR ''_'' then None else Some [])"
| "drop_underscores prev (c # cs) =
     (if c = CHR ''_'' then
        (if is_digit prev then drop_underscores c cs else None)
      else if prev = CHR ''_'' \<and> \<not> is_digit c then None
      else map_option (Cons c) (drop_underscores c cs))"

definition strip :: "string \<Rightarrow> string" where
  "strip s = rev (dropWhile is_space (rev (dropWhile is_space s)))"

fun split_sign :: "string \<Rightarrow> bool \<times> string" where
  "split_sign [] = (False, [])"
| "split_sign (c # cs) =
     (if c = CHR ''-'' then (True, cs) else if c = CHR ''+'' then (False, cs) else (False, c # cs))"

fun parse_exponent :: "string \<Rightarrow> int option" where
  "parse_exponent [] = Some 0"
| "parse_exponent (c # cs) =
     (if c = CHR ''e'' \<or> c = CHR ''E'' then
        (case split_sign cs of (neg, ds) \<Rightarrow>
           if ds \<noteq> [] \<and> list_all is_digit ds
           then Some (if neg then - int (nat_of_digits ds) else int (nat_of_digits ds))
           else None)
      else None)"

definition scale10 :: "nat \<Rightarrow> int \<Rightarrow> rat" where
  "scale10 m e = (if 0 \<le> e then of_nat m * 10 ^ nat e else of_nat m / 10 ^ nat (- e))"

definition parse_number :: "bool \<Rightarrow> string \<Rightarrow> pyfloat option" where
  "parse_number neg s =
     (let ip = takeWhile is_digit s; r1 = dropWhile is_digit s;
          fp = (case r1 of [] \<Rightarrow> [] | c # cs \<Rightarrow> if c = CHR ''.'' then takeWhile is_digit cs else []);
          r2 = (case r1 of [] \<Rightarrow> [] | c # cs \<Rightarrow> if c = CHR ''.'' then dropWhile is_digit cs else r1)
      in if ip = [] \<and> fp = [] then None
         else case parse_exponent r2 of
                None \<Rightarrow> None
              | Some e \<Rightarrow>
                  let m = nat_of_digits (ip @ fp)
                  in if m = 0 then Some (if neg then NegZero else Fin 0)
                     else Some (Fin ((if neg then - 1 else 1) * scale10 m (e - int (length fp)))))"

definition py_float :: "string \<Rightarrow> exn + pyfloat" where
  "py_float s =
     (case drop_underscores (CHR 0x00) s of
        None \<Rightarrow> Inl ValueError
      | Some t \<Rightarrow>
          (case split_sign (strip t) of (neg, body) \<Rightarrow>
             if map ascii_lower body = ''inf'' \<or> map ascii_lower body = ''infinity'' then Inr (Infty neg)
             else if map ascii_lower body = ''nan'' then Inr NaN
             else (case parse_number neg body of None \<Rightarrow> Inl ValueError | Some x \<Rightarrow> Inr x)))"

subsection \<open>The format specification \<^verbatim>\<open>8.3f\<close>\<close>

text \<open>
  Three decimals, the value rounded half to even, a minus sign for every value whose sign
  is negative (also when it rounds to zero), right-aligned with blanks to a width of at
  least 8; a longer rendering is not cut. Python rounds the binary value it holds, which
  is rarely a decimal tie itself; the model rounds the exact value, so on a value that ends
  in a 5 at the fourth decimal the two may choose different neighbours, both at distance
  0.0005.
\<close>

definition round_half_even :: "rat \<Rightarrow> int" where
  "round_half_even r =
     (let f = \<lfloor>r\<rfloor>; d = r - of_int f
      in if d < 1 / 2 then f else if 1 / 2 < d then f + 1 else if even f then f else f + 1)"

definition rjust :: "nat \<Rightarrow> string \<Rightarrow> string" where
  "rjust w s = replicate (w - length s) (CHR '' '') @ s"

definition fixed3 :: "bool \<Rightarrow> nat \<Rightarrow> string" where
  "fixed3 neg k =
     (if neg then ''-'' else []) @ digits_of (k div 1000) @ ''.''
       @ [digit_char (k div 100 mod 10), digit_char (k div 10 mod 10), digit_char (k mod 10)]"

fun format_8_3f :: "pyfloat \<Rightarrow> string" where
  "format_8_3f (Fin q) = rjust 8 (fixed3 (q < 0) (nat (round_half_even (\<bar>q\<bar> * 1000))))"
| "format_8_3f NegZero = rjust 8 (fixed3 True 0)"
| "format_8_3f (Infty neg) = rjust 8 (if neg then ''-inf'' else ''inf'')"
| "format_8_3f NaN = rjust 8 ''nan''"

text \<open>The coordinate field of the specification: \<^verbatim>\<open>parse_coordinate\<close> is \<^verbatim>\<open>float\<close> on the
  8-character slice, \<^verbatim>\<open>format_coordinate\<close> is the format specification above.\<close>

definition parse_coordinate :: "string \<Rightarrow> exn + pyfloat" where
  "parse_coordinate s = py_float s"

definition format_coordinate :: "pyfloat \<Rightarrow> string" where
  "format_coordinate x = format_8_3f x"

subsection \<open>Lines of text\<close>

text \<open>\<^verbatim>\<open>f.readlines()\<close>: every line keeps its line feed; a last line without one is kept
  as it is. \<^verbatim>\<open>f.writelines(lines)\<close> writes the strings one after the other.\<close>

fun split_lines :: "string \<Rightarrow> string \<Rightarrow> string list" where
  "split_lines cur [] = (if cur = [] then [] else [cur])"
| "split_lines cur (c # cs) =
     (if c = CHR 0x0A then (cur @ [c]) # split_lines [] cs else split_lines (cur @ [c]) cs)"

definition readlines :: "string \<Rightarrow> string list" where
  "readlines txt = split_lines [] txt"

definition writelines :: "string list \<Rightarrow> string" where
  "writelines ls = concat ls"

definition startswith :: "string \<Rightarrow> string \<Rightarrow> bool" where
  "startswith s p = (take (length p) s = p)"

text \<open>\<^verbatim>\<open>s[i:j]\<close> for \<open>0 \<le> i \<le> j\<close>: never raises, and is shorter than \<open>j - i\<close> when \<open>s\<close>
  ends before \<open>j\<close>.\<close>

definition slice :: "nat \<Rightarrow> nat \<Rightarrow> string \<Rightarrow> string" where
  "slice i j s = take (j - i) (drop i s)"

subsection \<open>\<^verbatim>\<open>reposition_ligand\<close>\<close>

definition is_atom_line :: "string \<Rightarrow> bool" where
  "is_atom_line line = (startswith line ''HETATM'' \<or> startswith line ''ATOM'')"

type_synonym coord = "pyfloat \<times> pyfloat \<times> pyfloat"

definition parse_xyz :: "string \<Rightarrow> exn + coord" where
  "parse_xyz line =
     (case py_float (slice 30 38 line) of Inl e \<Rightarrow> Inl e | Inr x \<Rightarrow>
     (case py_float (slice 38 46 line) of Inl e \<Rightarrow> Inl e | Inr y \<Rightarrow>
     (case py_float (slice 46 54 line) of Inl e \<Rightarrow> Inl e | Inr z \<Rightarrow> Inr (x, y, z))))"

text \<open>The first loop: the indices of the atom lines and their coordinates, in order.\<close>

fun find_atoms :: "nat \<Rightarrow> string list \<Rightarrow> exn + (nat list \<times> coord list)" where
  "find_atoms i [] = Inr ([], [])"
| "find_atoms i (line # rest) =
     (if is_atom_line line then
        (case parse_xyz line of
           Inl e \<Rightarrow> Inl e
         | Inr c \<Rightarrow> (case find_atoms (Suc i) rest of
                       Inl e \<Rightarrow> Inl e
                     | Inr (idx, cs) \<Rightarrow> Inr (i # idx, c # cs)))
      else find_atoms (Suc i) rest)"

definition center :: "coord list \<Rightarrow> exn + coord" where
  "center coords =
     (case fdiv_len (fsum (map (\<lambda>(x, y, z). x) coords)) (length coords) of Inl e \<Rightarrow> Inl e | Inr center_x \<Rightarrow>
     (case fdiv_len (fsum (map (\<lambda>(x, y, z). y) coords)) (length coords) of Inl e \<Rightarrow> Inl e | Inr center_y \<Rightarrow>
     (case fdiv_len (fsum (map (\<lambda>(x, y, z). z) coords)) (length coords) of Inl e \<Rightarrow> Inl e | Inr center_z \<Rightarrow>
      Inr (center_x, center_y, center_z))))"

fun translation :: "coord \<Rightarrow> coord \<Rightarrow> coord" where
  "translation (target_x, target_y, target_z) (center_x, center_y, center_z) =
     (fsub target_x center_x, fsub target_y center_y, fsub target_z center_z)"

fun new_line :: "coord \<Rightarrow> string \<Rightarrow> exn + string" where
  "new_line (trans_x, trans_y, trans_z) line =
     (case parse_xyz line of
        Inl e \<Rightarrow> Inl e
      | Inr (x, y, z) \<Rightarrow>
          Inr (take 30 line @ format_8_3f (fadd x trans_x) @ format_8_3f (fadd y trans_y)
                 @ format_8_3f (fadd z trans_z) @ drop 54 line))"

text \<open>The second loop: each atom line is parsed again, translated and replaced in the
  list of lines.\<close>

fun apply_translation :: "coord \<Rightarrow> nat list \<Rightarrow> string list \<Rightarrow> exn + string list" where
  "apply_translation tr [] lines = Inr lines"
| "apply_translation tr (i # idx) lines =
     (if i < length lines then
        (case new_line tr (lines ! i) of
           Inl e \<Rightarrow> Inl e
         | Inr l \<Rightarrow> apply_translation tr idx (lines[i := l]))
      else Inl IndexError)"

text \<open>The body of the \<^verbatim>\<open>try\<close> block, and the function with its handler
  \<^verbatim>\<open>except Exception: return False\<close>.\<close>

definition reposition_body ::
  "filesystem \<Rightarrow> string \<Rightarrow> string \<Rightarrow> coord \<Rightarrow> exn + (bool \<times> filesystem)" where
  "reposition_body fs input_file output_file target =
     (case read_text fs input_file of Inl e \<Rightarrow> Inl e | Inr txt \<Rightarrow>
     (case find_atoms 0 (readlines txt) of Inl e \<Rightarrow> Inl e | Inr (atom_line_indices, coords) \<Rightarrow>
        if coords = [] then Inr (False, fs)
        else
          (case center coords of Inl e \<Rightarrow> Inl e | Inr c \<Rightarrow>
          (case apply_translation (translation target c) atom_line_indices (readlines txt) of
             Inl e \<Rightarrow> Inl e
           | Inr lines \<Rightarrow>
               (case write_text fs output_file (writelines lines) of
                  Inl e \<Rightarrow> Inl e
                | Inr fs' \<Rightarrow> Inr (True, fs'))))))"

definition reposition_ligand ::
  "filesystem \<Rightarrow> string \<Rightarrow> string \<Rightarrow> coord \<Rightarrow> bool \<times> filesystem" where
  "reposition_ligand fs input_file output_file target =
     (case reposition_body fs input_file output_file target of
        Inl e \<Rightarrow> (False, fs)
      | Inr r \<Rightarrow> r)"

subsection \<open>Notions used in the statements\<close>

text \<open>The value a decimal numeral denotes: sign, digits read as a natural number, and the
  number of digits after the point. A negative sign on zero gives negative zero.\<close>

definition decimal_value :: "bool \<Rightarrow> nat \<Rightarrow> nat \<Rightarrow> pyfloat" where
  "decimal_value neg m places =
     (if m = 0 then (if neg then NegZero else Fin 0)
      else Fin ((if neg then - 1 else 1) * (of_nat m / 10 ^ places)))"

definition is_finite :: "pyfloat \<Rightarrow> bool" where
  "is_finite x = (case x of Fin q \<Rightarrow> True | NegZero \<Rightarrow> True | Infty neg \<Rightarrow> False | NaN \<Rightarrow> False)"

definition fval :: "pyfloat \<Rightarrow> rat" where
  "fval x = (case x of Fin q \<Rightarrow> q | NegZero \<Rightarrow> 0 | Infty neg \<Rightarrow> 0 | NaN \<Rightarrow> 0)"

text \<open>What is read back from a formatted value: the value rounded to three decimals.\<close>

definition rounded3 :: "pyfloat \<Rightarrow> pyfloat" where
  "rounded3 x = (case x of Fin q \<Rightarrow> decimal_value (q < 0) (nat (round_half_even (\<bar>q\<bar> * 1000))) 3
                 | NegZero \<Rightarrow> NegZero | Infty neg \<Rightarrow> Infty neg | NaN \<Rightarrow> NaN)"

text \<open>The values whose rendering fits the 8-character field: finite, strictly between
  \<open>-999.9995\<close> and \<open>9999.9995\<close>.\<close>

definition in_field :: "pyfloat \<Rightarrow> bool" where
  "in_field x = (case x of Fin q \<Rightarrow> - (9999995 / 10000) < q \<and> q < 99999995 / 10000
                 | NegZero \<Rightarrow> True | Infty neg \<Rightarrow> False | NaN \<Rightarrow> False)"

text \<open>A line as \<^verbatim>\<open>readlines\<close> delivers it: not empty, with no line feed before its last
  character; in a list of lines every line but the last ends with a line feed.\<close>

definition proper_line :: "string \<Rightarrow> bool" where
  "proper_line l = (l \<noteq> [] \<and> CHR 0x0A \<notin> set (butlast l))"

fun lines_ok :: "string list \<Rightarrow> bool" where
  "lines_ok [] = True"
| "lines_ok [l] = proper_line l"
| "lines_ok (l # ls) = (proper_line l \<and> last l = CHR 0x0A \<and> lines_ok ls)"

text \<open>What the second loop leaves in place of a line.\<close>

definition moved_line :: "coord \<Rightarrow> string \<Rightarrow> string" where
  "moved_line tr line =
     (if is_atom_line line then (case new_line tr line of Inl e \<Rightarrow> line | Inr l \<Rightarrow> l) else line)"

text \<open>An atom line that reaches at least to column 54 before its line end.\<close>

definition full_record :: "string \<Rightarrow> bool" where
  "full_record line = (54 \<le> length line \<and> CHR 0x0A \<notin> set (take 54 line))"

text \<open>Lines 88 to 90: the translation added to a coordinate triple.\<close>

fun translated :: "coord \<Rightarrow> coord \<Rightarrow> coord" where
  "translated (trans_x, trans_y, trans_z) (x, y, z) = (fadd x trans_x, fadd y trans_y, fadd z trans_z)"

fun coord_all :: "(pyfloat \<Rightarrow> bool) \<Rightarrow> coord \<Rightarrow> bool" where
  "coord_all P (x, y, z) = (P x \<and> P y \<and> P z)"

fun coord_map :: "(pyfloat \<Rightarrow> 'a) \<Rightarrow> coord \<Rightarrow> 'a \<times> 'a \<times> 'a" where
  "coord_map f (x, y, z) = (f x, f y, f z)"



text \<open>A value that an 8-character field with three decimals can hold exactly: a multiple
  of \<open>0.001\<close> between \<open>-999.999\<close> and \<open>9999.999\<close>.\<close>

definition on_grid :: "pyfloat \<Rightarrow> bool" where
  "on_grid x = (case x of
                  Fin q \<Rightarrow> of_int \<lfloor>q * 1000\<rfloor> = q * 1000 \<and> - (999999 / 1000) \<le> q \<and> q \<le> 9999999 / 1000
                | NegZero \<Rightarrow> True | Infty neg \<Rightarrow> False | NaN \<Rightarrow> False)"

text \<open>The coordinate field of the data model, as a recogniser: 8 characters; blanks on the
  left; an optional minus sign; an integer part without a superfluous leading zero; a point;
  three decimals.\<close>

definition fixed3_field :: "string \<Rightarrow> bool" where
  "fixed3_field s =
     (let t = dropWhile (\<lambda>c. c = CHR '' '') s;
          u = (case t of [] \<Rightarrow> [] | c # cs \<Rightarrow> if c = CHR ''-'' then cs else t);
          ip = takeWhile is_digit u;
          r = dropWhile is_digit u
      in length s = 8 \<and> ip \<noteq> [] \<and> (ip = ''0'' \<or> hd ip \<noteq> CHR ''0'')
         \<and> (case r of [] \<Rightarrow> False | c # fp \<Rightarrow> c = CHR ''.'' \<and> length fp = 3 \<and> list_all is_digit fp))"

subsection \<open>Sample data\<close>

definition fs_empty :: filesystem where
  "fs_empty = \<lparr>contents = Map.empty, unreadable = (\<lambda>p. False), unwritable = (\<lambda>p. False)\<rparr>"


definition creates :: "string \<Rightarrow> filesystem \<Rightarrow> filesystem" where
  "creates p fs = fs\<lparr>contents := (contents fs)(p \<mapsto> ''ROOT'')\<rparr>"

text \<open>Tools: the first exits with status 1, the second exits with status 0 and writes
  nothing, the third writes the artifact.\<close>

definition sh_third :: shell where
  "sh_third cmd fs =
     (if cmd = cmd_prepare_ligand4 ''a.pdb'' ''a.pdbqt'' then (Inr 1, fs)
      else if cmd = cmd_obabel ''a.pdb'' ''a.pdbqt'' then (Inr 0, fs)
      else (Inr 0, creates ''a.pdbqt'' fs))"

text \<open>Tools: starting the first process fails; the others would write the artifact.\<close>

definition sh_spawn_fails :: shell where
  "sh_spawn_fails cmd fs =
     (if cmd = cmd_prepare_ligand4 ''a.pdb'' ''a.pdbqt'' then (Inl OSError, fs)
      else (Inr 0, creates ''a.pdbqt'' fs))"


text \<open>An atom at the origin.\<close>

definition line_c :: string where
  "line_c = ''ATOM      1 C    LIG A   1       0.000   0.000   0.000  1.00  0.00     0.000 C'' @ nl"

text \<open>A hetero atom at (2, 2, 2).\<close>

definition line_o :: string where
  "line_o = ''HETATM    2 O    LIG A   1       2.000   2.000   2.000  1.00  0.00     0.000 OA'' @ nl"

definition line_c_moved :: string where
  "line_c_moved = ''ATOM      1 C    LIG A   1       9.000   9.000   9.000  1.00  0.00     0.000 C'' @ nl"

definition line_o_moved :: string where
  "line_o_moved = ''HETATM    2 O    LIG A   1      11.000  11.000  11.000  1.00  0.00     0.000 OA'' @ nl"

definition line_remark :: string where
  "line_remark = ''REMARK two atoms'' @ nl"

text \<open>The end-to-end scenario of the specification: two atoms, at the origin and at (2, 2, 2).\<close>

definition two_atoms :: string where
  "two_atoms = line_remark @ line_c @ line_o @ ''END''"


text \<open>A structure without atom lines.\<close>

definition no_atoms :: string where
  "no_atoms = line_remark @ ''END'' @ nl"

text \<open>An atom line of 53 characters, its line feed included: the third coordinate field is cut short.\<close>

definition line_short :: string where
  "line_short = ''ATOM      1 C    LIG A   1       1.000   2.000   3.0'' @ nl"

definition line_short_moved :: string where
  "line_short_moved = ''ATOM      1 C    LIG A   1       0.000   0.000   0.000''"

text \<open>An atom line whose second coordinate field is no number.\<close>

definition line_bad :: string where
  "line_bad = ''ATOM      1 C    LIG A   1       1.000     abc   3.000  1.00  0.00     0.000 C'' @ nl"









definition short_file :: string where
  "short_file = line_short @ ''END''"

definition bad_file :: string where
  "bad_file = line_remark @ line_bad @ ''END''"




text \<open>A file system that holds one readable file, \<^verbatim>\<open>in.pdbqt\<close>.\<close>

definition fs_with :: "string \<Rightarrow> filesystem" where
  "fs_with txt = \<lparr>contents = [''in.pdbqt'' \<mapsto> txt], unreadable = (\<lambda>p. False), unwritable = (\<lambda>p. False)\<rparr>"

definition wrote :: "filesystem \<Rightarrow> string \<Rightarrow> filesystem" where
  "wrote fs txt = fs\<lparr>contents := (contents fs)(''out.pdbqt'' \<mapsto> txt)\<rparr>"


section \<open>The conversion fallback\<close>

lemma no_nul_cmds:
  assumes "CHR 0x00 \<notin> set a" "CHR 0x00 \<notin> set b"
  shows "CHR 0x00 \<notin> set (cmd_prepare_ligand4 a b)"
    and "CHR 0x00 \<notin> set (cmd_obabel a b)"
    and "CHR 0x00 \<notin> set (cmd_pythonsh a b)"
  using assms by (simp_all add: cmd_prepare_ligand4_def cmd_obabel_def cmd_pythonsh_def dq_def sq_def nl_def)

lemma try_method_exit:
  assumes "CHR 0x00 \<notin> set cmd" "sh cmd fs = (Inr rc, fs')"
  shows "try_method sh cmd art fs = (Inr (rc = 0 \<and> path_exists fs' art), fs')"
  using assms by (simp add: try_method_def subprocess_run_def)

lemma try_method_raise:
  assumes "CHR 0x00 \<notin> set cmd" "sh cmd fs = (Inl e, fs')" "\<And>rc. e \<noteq> CalledProcessError rc"
  shows "try_method sh cmd art fs = (Inl e, fs')"
  using assms by (cases e) (auto simp add: try_method_def subprocess_run_def)

lemma cmds_distinct:
  "cmd_prepare_ligand4 a b \<noteq> cmd_obabel a b"
  "cmd_prepare_ligand4 a b \<noteq> cmd_pythonsh a b"
  "cmd_obabel a b \<noteq> cmd_pythonsh a b"
  "cmd_obabel a b \<noteq> cmd_prepare_ligand4 a b"
  "cmd_pythonsh a b \<noteq> cmd_prepare_ligand4 a b"
  "cmd_pythonsh a b \<noteq> cmd_obabel a b"
  by (simp_all add: cmd_prepare_ligand4_def cmd_obabel_def cmd_pythonsh_def)

text \<open>
  Claim C2, as amended. When no process fails to start (no exception other than
  \<^verbatim>\<open>CalledProcessError\<close> is raised, and neither path holds a NUL character),
  \<^verbatim>\<open>convert_pdb_to_pdbqt\<close> is the fallback policy over its three commands in the order
  \<^verbatim>\<open>prepare_ligand4.py\<close>, \<^verbatim>\<open>obabel\<close>, \<^verbatim>\<open>pythonsh\<close>: a strategy succeeds exactly when its process
  exits with status 0 and the artifact exists afterwards; a non-zero exit or a missing artifact
  leads to the next strategy without an exception; the result is \<^verbatim>\<open>True\<close> at the first
  success and \<^verbatim>\<open>False\<close> only when all three fail.
\<close>

theorem convert_fallback_policy:
  assumes nul: "CHR 0x00 \<notin> set pdb_file" "CHR 0x00 \<notin> set pdbqt_file"
    and spawn: "\<And>cmd fs. \<exists>rc fs'. sh cmd fs = (Inr rc, fs')"
  shows "convert_pdb_to_pdbqt sh pdb_file pdbqt_file fs =
           (case first_success sh [cmd_prepare_ligand4 pdb_file pdbqt_file,
                                   cmd_obabel pdb_file pdbqt_file,
                                   cmd_pythonsh pdb_file pdbqt_file] pdbqt_file fs of
              (b, fs') \<Rightarrow> (Inr b, fs'))"
proof -
  let ?c1 = "cmd_prepare_ligand4 pdb_file pdbqt_file"
  let ?c2 = "cmd_obabel pdb_file pdbqt_file"
  let ?c3 = "cmd_pythonsh pdb_file pdbqt_file"
  obtain r1 fs1 where s1: "sh ?c1 fs = (Inr r1, fs1)" using spawn by blast
  obtain r2 fs2 where s2: "sh ?c2 fs1 = (Inr r2, fs2)" using spawn by blast
  obtain r3 fs3 where s3: "sh ?c3 fs2 = (Inr r3, fs3)" using spawn by blast
  have t1: "try_method sh ?c1 pdbqt_file fs = (Inr (r1 = 0 \<and> path_exists fs1 pdbqt_file), fs1)"
    using no_nul_cmds(1) [OF nul] s1 by (rule try_method_exit)
  have t2: "try_method sh ?c2 pdbqt_file fs1 = (Inr (r2 = 0 \<and> path_exists fs2 pdbqt_file), fs2)"
    using no_nul_cmds(2) [OF nul] s2 by (rule try_method_exit)
  have t3: "try_method sh ?c3 pdbqt_file fs2 = (Inr (r3 = 0 \<and> path_exists fs3 pdbqt_file), fs3)"
    using no_nul_cmds(3) [OF nul] s3 by (rule try_method_exit)
  show ?thesis
    by (auto simp add: convert_pdb_to_pdbqt_def t1 t2 t3 s1 s2 s3 split: bool.splits)
qed

text \<open>The scenario of the specification: the first tool exits with status 1, the second
  exits with status 0 without writing the artifact, the third writes it.\<close>

theorem convert_fallback_policy_witness:
  "CHR 0x00 \<notin> set ''a.pdb'' \<and> CHR 0x00 \<notin> set ''a.pdbqt''
   \<and> (\<forall>cmd fs. \<exists>rc fs'. sh_third cmd fs = (Inr rc, fs'))
   \<and> convert_pdb_to_pdbqt sh_third ''a.pdb'' ''a.pdbqt'' fs_empty
       = (Inr True, creates ''a.pdbqt'' fs_empty)"
proof -
  have sp: "\<And>cmd fs. \<exists>rc fs'. sh_third cmd fs = (Inr rc, fs')"
    by (simp add: sh_third_def)
  have "convert_pdb_to_pdbqt sh_third ''a.pdb'' ''a.pdbqt'' fs_empty
       = (Inr True, creates ''a.pdbqt'' fs_empty)"
    using convert_fallback_policy [of "''a.pdb''" "''a.pdbqt''" sh_third fs_empty] sp
    by (simp add: sh_third_def cmds_distinct path_exists_def fs_empty_def creates_def)
  with sp show ?thesis by simp
qed

text \<open>An exception raised while starting the first process is not caught by
  \<^verbatim>\<open>except subprocess.CalledProcessError\<close>: it reaches the caller, and the second and third
  strategies, which would have succeeded, are never tried.\<close>

theorem convert_exception_counterexample:
  "convert_pdb_to_pdbqt sh_spawn_fails ''a.pdb'' ''a.pdbqt'' fs_empty = (Inl OSError, fs_empty)
   \<and> first_success sh_spawn_fails
        [cmd_prepare_ligand4 ''a.pdb'' ''a.pdbqt'', cmd_obabel ''a.pdb'' ''a.pdbqt'',
         cmd_pythonsh ''a.pdb'' ''a.pdbqt''] ''a.pdbqt'' fs_empty
       = (True, creates ''a.pdbqt'' fs_empty)"
proof -
  have n: "CHR 0x00 \<notin> set (cmd_prepare_ligand4 ''a.pdb'' ''a.pdbqt'')"
    by (rule no_nul_cmds) simp_all
  have "try_method sh_spawn_fails (cmd_prepare_ligand4 ''a.pdb'' ''a.pdbqt'') ''a.pdbqt'' fs_empty
        = (Inl OSError, fs_empty)"
    by (rule try_method_raise [OF n]) (simp_all add: sh_spawn_fails_def)
  then show ?thesis
    by (simp add: convert_pdb_to_pdbqt_def sh_spawn_fails_def cmds_distinct path_exists_def
        fs_empty_def creates_def)
qed




section \<open>Digits, parsing and formatting\<close>

declare digits_of.simps [simp del]

lemma of_char_digit_char: "d < 10 \<Longrightarrow> (of_char (digit_char d) :: nat) = 48 + d"
  by (simp add: digit_char_def)

lemma is_digit_digit_char: "d < 10 \<Longrightarrow> is_digit (digit_char d)"
  by (simp add: is_digit_def of_char_digit_char)

lemma digit_val_digit_char: "d < 10 \<Longrightarrow> digit_val (digit_char d) = d"
  by (simp add: digit_val_def of_char_digit_char)

lemma digit_char_digit_val: "is_digit c \<Longrightarrow> digit_char (digit_val c) = c"
  by (simp add: digit_val_def digit_char_def is_digit_def)

lemma digit_val_less: "is_digit c \<Longrightarrow> digit_val c < 10"
  by (auto simp add: digit_val_def is_digit_def)

lemma digit_char_values:
  "digit_char 0 = CHR ''0''" "digit_char 1 = CHR ''1''" "digit_char 2 = CHR ''2''"
  "digit_char 3 = CHR ''3''" "digit_char 4 = CHR ''4''" "digit_char 5 = CHR ''5''"
  "digit_char 6 = CHR ''6''" "digit_char 7 = CHR ''7''" "digit_char 8 = CHR ''8''"
  "digit_char 9 = CHR ''9''"
  by (simp_all add: digit_char_def char_of_eq_iff)

lemma is_digit_not_special:
  assumes "is_digit c"
  shows "c \<noteq> CHR ''_''" "c \<noteq> CHR ''.''" "c \<noteq> CHR ''-''" "c \<noteq> CHR ''+''" "c \<noteq> CHR '' ''"
    "c \<noteq> CHR 0x0A" "\<not> is_space c" "ascii_lower c = c" "c \<noteq> CHR ''i''" "c \<noteq> CHR ''n''"
  using assms by (auto simp add: is_digit_def is_space_def ascii_lower_def)

lemma digits_of_all_digits: "list_all is_digit (digits_of n)"
proof (induction n rule: digits_of.induct)
  case (1 n)
  show ?case
  proof (cases "n < 10")
    case True
    then show ?thesis by (subst digits_of.simps) (simp add: is_digit_digit_char)
  next
    case False
    with 1 show ?thesis by (subst digits_of.simps) (simp add: is_digit_digit_char)
  qed
qed

lemma digits_of_nonempty: "digits_of n \<noteq> []"
  by (subst digits_of.simps) simp

lemma nat_of_digits_Nil: "nat_of_digits [] = 0"
  by (simp add: nat_of_digits_def)

lemma nat_of_digits_snoc: "nat_of_digits (ds @ [c]) = 10 * nat_of_digits ds + digit_val c"
  by (simp add: nat_of_digits_def)

lemma nat_of_digits_append:
  "nat_of_digits (xs @ ys) = nat_of_digits xs * 10 ^ length ys + nat_of_digits ys"
proof (induction ys rule: rev_induct)
  case Nil
  show ?case by (simp add: nat_of_digits_Nil)
next
  case (snoc y ys)
  have "nat_of_digits (xs @ ys @ [y]) = 10 * nat_of_digits (xs @ ys) + digit_val y"
    using nat_of_digits_snoc [of "xs @ ys" y] by simp
  then show ?case
    by (simp add: snoc.IH nat_of_digits_snoc algebra_simps)
qed

lemma nat_of_digits_digits_of: "nat_of_digits (digits_of n) = n"
proof (induction n rule: digits_of.induct)
  case (1 n)
  show ?case
  proof (cases "n < 10")
    case True
    then show ?thesis
      by (subst digits_of.simps) (simp add: nat_of_digits_def digit_val_digit_char)
  next
    case False
    with 1 have "nat_of_digits (digits_of (n div 10)) = n div 10" by simp
    with False show ?thesis
      by (subst digits_of.simps) (simp add: nat_of_digits_snoc digit_val_digit_char)
  qed
qed

lemma length_digits_of_le: "n < 10 ^ k \<Longrightarrow> 0 < k \<Longrightarrow> length (digits_of n) \<le> k"
proof (induction n arbitrary: k rule: digits_of.induct)
  case (1 n)
  show ?case
  proof (cases "n < 10")
    case True
    with 1(3) show ?thesis by (subst digits_of.simps) simp
  next
    case False
    then obtain j where k: "k = Suc j" and j: "0 < j"
      using 1(2,3) by (cases k; cases "k - 1") auto
    have "n div 10 < 10 ^ j" using 1(2) k by (simp add: less_mult_imp_div_less mult.commute)
    with 1(1) False j have "length (digits_of (n div 10)) \<le> j" by simp
    with False k show ?thesis by (subst digits_of.simps) simp
  qed
qed

lemma drop_underscores_id:
  "CHR ''_'' \<notin> set s \<Longrightarrow> prev \<noteq> CHR ''_'' \<Longrightarrow> drop_underscores prev s = Some s"
  by (induction s arbitrary: prev) auto

lemma dropWhile_space_replicate:
  "t \<noteq> [] \<Longrightarrow> \<not> is_space (hd t) \<Longrightarrow> dropWhile is_space (replicate p (CHR '' '') @ t) = t"
  by (induction p) (auto simp add: is_space_def dropWhile_eq_self_iff)

lemma strip_padded:
  assumes "t \<noteq> []" "\<not> is_space (hd t)" "\<not> is_space (last t)"
  shows "strip (replicate p (CHR '' '') @ t) = t"
proof -
  have "dropWhile is_space (rev t) = rev t"
    using assms(1,3) by (simp add: dropWhile_eq_self_iff hd_rev)
  then show ?thesis
    by (simp add: strip_def dropWhile_space_replicate assms)
qed

lemma takeWhile_digits_point:
  "list_all is_digit ds \<Longrightarrow> takeWhile is_digit (ds @ CHR ''.'' # fs) = ds"
  by (induction ds) (auto simp add: is_digit_def)

lemma dropWhile_digits_point:
  "list_all is_digit ds \<Longrightarrow> dropWhile is_digit (ds @ CHR ''.'' # fs) = CHR ''.'' # fs"
  by (induction ds) (auto simp add: is_digit_def)

lemma takeWhile_all_digits: "list_all is_digit fs \<Longrightarrow> takeWhile is_digit fs = fs"
  by (induction fs) auto

lemma dropWhile_all_digits: "list_all is_digit fs \<Longrightarrow> dropWhile is_digit fs = []"
  by (induction fs) auto

lemma scale10_neg: "scale10 m (- int n) = of_nat m / 10 ^ n"
proof (cases n)
  case 0
  then show ?thesis by (simp add: scale10_def)
next
  case (Suc j)
  have "nat (int j + 1) = Suc j" by simp
  with Suc show ?thesis by (simp add: scale10_def)
qed

lemma parse_number_decimal:
  assumes "ds \<noteq> []" "list_all is_digit ds" "list_all is_digit fs"
  shows "parse_number neg (ds @ CHR ''.'' # fs)
           = Some (decimal_value neg (nat_of_digits (ds @ fs)) (length fs))"
  using assms
  by (simp add: parse_number_def takeWhile_digits_point dropWhile_digits_point
      takeWhile_all_digits dropWhile_all_digits decimal_value_def scale10_neg Let_def)

lemma split_sign_signed:
  assumes "ds \<noteq> []" "is_digit (hd ds)"
  shows "split_sign ((if neg then ''-'' else []) @ ds) = (neg, ds)"
  using assms by (cases ds) (auto simp add: is_digit_not_special)

lemma not_keyword:
  assumes "ds \<noteq> []" "is_digit (hd ds)"
  shows "map ascii_lower ds \<noteq> ''inf''" "map ascii_lower ds \<noteq> ''infinity''"
    "map ascii_lower ds \<noteq> ''nan''"
  using assms by (cases ds; auto simp add: is_digit_not_special)+

lemma py_float_decimal:
  assumes ds: "ds \<noteq> []" "list_all is_digit ds" and fs: "list_all is_digit fs"
  shows "py_float (replicate p (CHR '' '') @ (if neg then ''-'' else []) @ ds @ CHR ''.'' # fs)
           = Inr (decimal_value neg (nat_of_digits (ds @ fs)) (length fs))"
proof -
  let ?body = "ds @ CHR ''.'' # fs"
  let ?t = "(if neg then ''-'' else []) @ ?body"
  have hd_ds: "is_digit (hd ds)" using ds by (cases ds) auto
  have all: "\<forall>c \<in> set (ds @ fs). is_digit c"
    using ds fs by (auto simp add: list_all_iff)
  have no_us: "CHR ''_'' \<notin> set (replicate p (CHR '' '') @ ?t)"
    using all is_digit_not_special(1) by auto
  have t_ne: "?t \<noteq> []" by simp
  have hd_t: "\<not> is_space (hd ?t)"
  proof (cases neg)
    case True
    then show ?thesis by (simp add: is_space_def)
  next
    case False
    with ds hd_ds show ?thesis by (cases ds) (simp_all add: is_digit_not_special)
  qed
  have last_t: "\<not> is_space (last ?t)"
  proof (cases fs rule: rev_cases)
    case Nil
    then show ?thesis by (simp add: is_space_def)
  next
    case (snoc fs' c)
    with fs have "is_digit c" by simp
    with snoc show ?thesis by (simp add: is_digit_not_special)
  qed
  have st: "strip (replicate p (CHR '' '') @ ?t) = ?t"
    by (rule strip_padded [OF t_ne hd_t last_t])
  have body_ne: "?body \<noteq> []" by simp
  have hd_body: "is_digit (hd ?body)" using ds hd_ds by (cases ds) auto
  have sg: "split_sign ?t = (neg, ?body)"
    by (rule split_sign_signed [OF body_ne hd_body])
  have du: "drop_underscores (CHR 0x00) (replicate p (CHR '' '') @ ?t)
              = Some (replicate p (CHR '' '') @ ?t)"
    by (rule drop_underscores_id [OF no_us]) simp
  show ?thesis
    unfolding py_float_def
    by (simp only: du st sg not_keyword [OF body_ne hd_body]
        parse_number_decimal [OF ds fs] option.case prod.case if_False simp_thms)
qed

lemma round_half_even_of_int: "round_half_even (of_int k) = k"
  by (simp add: round_half_even_def)

lemma round_half_even_of_nat: "round_half_even (of_nat k) = int k"
  using round_half_even_of_int [of "int k"] by simp

lemma round_half_even_close: "\<bar>of_int (round_half_even r) - r\<bar> \<le> 1 / 2"
proof -
  define d where "d = r - of_int \<lfloor>r\<rfloor>"
  have d: "0 \<le> d" "d < 1" unfolding d_def by linarith+
  have r: "r = of_int \<lfloor>r\<rfloor> + d" unfolding d_def by simp
  consider "d < 1 / 2" | "1 / 2 < d" | "d = 1 / 2" by linarith
  then show ?thesis
  proof cases
    case 1
    then have "round_half_even r = \<lfloor>r\<rfloor>"
      by (simp add: round_half_even_def Let_def d_def)
    then have "of_int (round_half_even r) - r = - d" unfolding d_def by simp
    with 1 d show ?thesis by simp
  next
    case 2
    then have "round_half_even r = \<lfloor>r\<rfloor> + 1"
      by (simp add: round_half_even_def Let_def d_def)
    then have "of_int (round_half_even r) - r = 1 - d" unfolding d_def by simp
    with 2 d show ?thesis by simp
  next
    case 3
    then have "round_half_even r = \<lfloor>r\<rfloor> \<or> round_half_even r = \<lfloor>r\<rfloor> + 1"
      by (simp add: round_half_even_def Let_def d_def)
    then have "of_int (round_half_even r) - r = - d \<or> of_int (round_half_even r) - r = 1 - d"
      unfolding d_def by auto
    with 3 show ?thesis by auto
  qed
qed

lemma round_half_even_nonneg: "0 \<le> r \<Longrightarrow> 0 \<le> round_half_even r"
proof -
  assume "0 \<le> r"
  then have "0 \<le> \<lfloor>r\<rfloor>" by simp
  then show ?thesis by (auto simp add: round_half_even_def Let_def)
qed

lemma round_half_even_less:
  assumes "r < of_int n - 1 / 2"
  shows "round_half_even r < n"
proof -
  have "of_int (round_half_even r) - r \<le> 1 / 2"
    using round_half_even_close [of r] by (rule abs_le_D1)
  with assms have "(of_int (round_half_even r) :: rat) < of_int n" by linarith
  then show ?thesis by simp
qed

lemma three_digits_value:
  "nat_of_digits [digit_char (k div 100 mod 10), digit_char (k div 10 mod 10), digit_char (k mod 10)]
     = k mod 1000"
proof -
  have "nat_of_digits [digit_char (k div 100 mod 10), digit_char (k div 10 mod 10), digit_char (k mod 10)]
        = 10 * (10 * (k div 100 mod 10) + k div 10 mod 10) + k mod 10"
    by (simp add: nat_of_digits_def digit_val_digit_char)
  also have "\<dots> = k mod 1000"
    using mod_mult2_eq [of k 100 10] mod_mult2_eq [of k 10 10] by simp
  finally show ?thesis .
qed

lemma fixed3_value:
  "nat_of_digits (digits_of (k div 1000)
      @ [digit_char (k div 100 mod 10), digit_char (k div 10 mod 10), digit_char (k mod 10)]) = k"
  by (simp add: nat_of_digits_append nat_of_digits_digits_of three_digits_value)

lemma fixed3_shape:
  "fixed3 neg k = (if neg then ''-'' else []) @ digits_of (k div 1000) @ CHR ''.'' #
      [digit_char (k div 100 mod 10), digit_char (k div 10 mod 10), digit_char (k mod 10)]"
  by (simp add: fixed3_def)

lemma length_fixed3:
  "length (fixed3 neg k) = (if neg then 1 else 0) + length (digits_of (k div 1000)) + 4"
  by (simp add: fixed3_def)

lemma py_float_fixed3:
  "py_float (replicate p (CHR '' '') @ fixed3 neg k) = Inr (decimal_value neg k 3)"
proof -
  let ?fs = "[digit_char (k div 100 mod 10), digit_char (k div 10 mod 10), digit_char (k mod 10)]"
  have fs: "list_all is_digit ?fs" by (simp add: is_digit_digit_char)
  have "py_float (replicate p (CHR '' '') @ (if neg then ''-'' else []) @ digits_of (k div 1000) @ CHR ''.'' # ?fs)
        = Inr (decimal_value neg (nat_of_digits (digits_of (k div 1000) @ ?fs)) (length ?fs))"
    by (rule py_float_decimal [OF digits_of_nonempty digits_of_all_digits fs])
  then show ?thesis
    by (simp only: fixed3_shape fixed3_value) (simp add: numeral_3_eq_3)
qed

lemma py_float_rjust_fixed3: "py_float (rjust w (fixed3 neg k)) = Inr (decimal_value neg k 3)"
  by (simp only: rjust_def py_float_fixed3)

lemma is_finite_simps:
  "is_finite (Fin q)" "is_finite NegZero" "\<not> is_finite (Infty neg)" "\<not> is_finite NaN"
  by (simp_all add: is_finite_def)

lemma fval_simps: "fval (Fin q) = q" "fval NegZero = 0"
  by (simp_all add: fval_def)


lemma fval_decimal_value:
  "fval (decimal_value neg m p) = (if neg then - 1 else 1) * (of_nat m / 10 ^ p)"
  by (simp add: decimal_value_def fval_simps)

lemma py_float_format_finite:
  assumes "is_finite x"
  shows "py_float (format_8_3f x) = Inr (rounded3 x)"
proof (cases x)
  case (Fin q)
  then show ?thesis by (simp add: py_float_rjust_fixed3 rounded3_def)
next
  case NegZero
  then show ?thesis by (simp add: py_float_rjust_fixed3 rounded3_def decimal_value_def)
next
  case (Infty neg)
  with assms show ?thesis by (simp add: is_finite_simps)
next
  case NaN
  with assms show ?thesis by (simp add: is_finite_simps)
qed


lemma round3_nonneg_close:
  assumes "0 \<le> a"
  shows "\<bar>of_nat (nat (round_half_even (a * 1000))) / 1000 - a\<bar> \<le> 1 / 2000"
proof -
  let ?k = "round_half_even (a * 1000)"
  have nn: "0 \<le> ?k" using assms by (intro round_half_even_nonneg) simp
  have cl: "\<bar>of_int ?k - a * 1000\<bar> \<le> 1 / 2" by (rule round_half_even_close)
  have k: "(of_nat (nat ?k) :: rat) = of_int ?k" using nn by simp
  have e: "of_nat (nat ?k) / 1000 - a = (of_int ?k - a * 1000) / 1000"
    by (simp add: k diff_divide_distrib)
  have "\<bar>(of_int ?k - a * 1000) / 1000\<bar> = \<bar>of_int ?k - a * 1000\<bar> / 1000"
    unfolding abs_divide by simp
  also have "\<dots> \<le> (1 / 2) / 1000"
    using cl by (rule divide_right_mono) simp
  finally show ?thesis by (simp add: e)
qed

lemma rounded3_close:
  assumes "is_finite x"
  shows "\<bar>fval (rounded3 x) - fval x\<bar> \<le> 1 / 2000"
proof (cases x)
  case (Fin q)
  define a where "a = \<bar>q\<bar>"
  have a: "0 \<le> a" by (simp add: a_def)
  have r: "rounded3 x = decimal_value (q < 0) (nat (round_half_even (a * 1000))) 3"
    using Fin by (simp add: rounded3_def a_def)
  note cl = round3_nonneg_close [OF a]
  show ?thesis
  proof (cases "q < 0")
    case True
    then have q: "q = - a" by (simp add: a_def)
    have fx: "fval x = - a" using Fin q by (simp add: fval_simps)
    have fr: "fval (rounded3 x) = - (of_nat (nat (round_half_even (a * 1000))) / 1000)"
      using True by (simp add: r fval_decimal_value)
    have "fval (rounded3 x) - fval x = - (of_nat (nat (round_half_even (a * 1000))) / 1000 - a)"
      by (simp add: fx fr)
    then show ?thesis using cl by (simp only: abs_minus)
  next
    case False
    then have q: "q = a" by (simp add: a_def)
    have fx: "fval x = a" using Fin q by (simp add: fval_simps)
    have fr: "fval (rounded3 x) = of_nat (nat (round_half_even (a * 1000))) / 1000"
      using False by (simp add: r fval_decimal_value)
    have "fval (rounded3 x) - fval x = of_nat (nat (round_half_even (a * 1000))) / 1000 - a"
      by (simp add: fx fr)
    then show ?thesis using cl by simp
  qed
next
  case NegZero
  then show ?thesis by (simp add: rounded3_def fval_simps)
next
  case (Infty neg)
  with assms show ?thesis by (simp add: is_finite_simps)
next
  case NaN
  with assms show ?thesis by (simp add: is_finite_simps)
qed

lemma in_field_finite: "in_field x \<Longrightarrow> is_finite x"
  by (cases x) (simp_all add: in_field_def is_finite_simps)

lemma length_rjust: "length (rjust w s) = max w (length s)"
  by (simp add: rjust_def)

lemma length_fixed3_le:
  assumes "k < 10 ^ (if neg then 6 else 7)"
  shows "length (fixed3 neg k) \<le> 8"
proof (cases neg)
  case True
  with assms have "k < 10 ^ 6" by simp
  then have "k div 1000 < 10 ^ 3" by simp
  then have "length (digits_of (k div 1000)) \<le> 3" by (rule length_digits_of_le) simp
  with True show ?thesis by (simp add: length_fixed3)
next
  case False
  with assms have "k < 10 ^ 7" by simp
  then have "k div 1000 < 10 ^ 4" by simp
  then have "length (digits_of (k div 1000)) \<le> 4" by (rule length_digits_of_le) simp
  with False show ?thesis by (simp add: length_fixed3)
qed

lemma rounded_thousandths_less:
  assumes "0 \<le> a" "a < of_int n - 1 / 2000" "0 \<le> n"
  shows "nat (round_half_even (a * 1000)) < nat (n * 1000)"
proof -
  have "a * 1000 < of_int (n * 1000) - 1 / 2" using assms(2) by simp
  then have "round_half_even (a * 1000) < n * 1000" by (rule round_half_even_less)
  moreover have "0 \<le> round_half_even (a * 1000)"
    using assms(1) by (intro round_half_even_nonneg) simp
  ultimately show ?thesis using assms(3) by simp
qed

lemma length_format_in_field:
  assumes "in_field x"
  shows "length (format_8_3f x) = 8"
proof (cases x)
  case (Fin q)
  show ?thesis
  proof (cases "q < 0")
    case True
    have "\<bar>q\<bar> < of_int 1000 - 1 / 2000" using assms Fin True by (simp add: in_field_def)
    then have "nat (round_half_even (\<bar>q\<bar> * 1000)) < nat (1000 * 1000)"
      by (intro rounded_thousandths_less) simp_all
    then have "length (fixed3 True (nat (round_half_even (\<bar>q\<bar> * 1000)))) \<le> 8"
      by (intro length_fixed3_le) simp
    with Fin True show ?thesis by (simp add: length_rjust)
  next
    case False
    have "\<bar>q\<bar> < of_int 10000 - 1 / 2000" using assms Fin False by (simp add: in_field_def)
    then have "nat (round_half_even (\<bar>q\<bar> * 1000)) < nat (10000 * 1000)"
      by (intro rounded_thousandths_less) simp_all
    then have "length (fixed3 False (nat (round_half_even (\<bar>q\<bar> * 1000)))) \<le> 8"
      by (intro length_fixed3_le) simp
    with Fin False show ?thesis by (simp add: length_rjust)
  qed
next
  case NegZero
  have "digits_of 0 = ''0''" by (subst digits_of.simps) (simp add: digit_char_values)
  with NegZero show ?thesis by (simp add: rjust_def fixed3_def)
next
  case (Infty neg)
  with assms show ?thesis by (simp add: in_field_def)
next
  case NaN
  with assms show ?thesis by (simp add: in_field_def)
qed

lemma digits_of_no_newline: "CHR 0x0A \<notin> set (digits_of n)"
  using digits_of_all_digits [of n] is_digit_not_special(6) by (auto simp add: list_all_iff)

lemma digit_char_no_newline:
  "CHR 0x0A \<noteq> digit_char (n mod 10)" "CHR 0x0A \<noteq> digit_char 0"
  using is_digit_digit_char [of "n mod 10"] is_digit_digit_char [of 0] is_digit_not_special(6)
  by fastforce+

lemma format_no_newline: "CHR 0x0A \<notin> set (format_8_3f x)"
  by (cases x) (simp_all add: rjust_def fixed3_def digits_of_no_newline digit_char_no_newline)

lemma format_nonempty: "format_8_3f x \<noteq> []"
  by (cases x) (simp_all add: rjust_def fixed3_def)


section \<open>Lines\<close>

lemma split_lines_no_newline:
  "CHR 0x0A \<notin> set b \<Longrightarrow> split_lines cur b = (if cur @ b = [] then [] else [cur @ b])"
  by (induction b arbitrary: cur) auto

lemma split_lines_line:
  "CHR 0x0A \<notin> set b \<Longrightarrow>
     split_lines cur (b @ CHR 0x0A # rest) = (cur @ b @ [CHR 0x0A]) # split_lines [] rest"
  by (induction b arbitrary: cur) auto

lemma lines_ok_split_lines:
  "CHR 0x0A \<notin> set cur \<Longrightarrow> lines_ok (split_lines cur s)"
proof (induction s arbitrary: cur)
  case Nil
  then show ?case by (simp add: proper_line_def) (metis in_set_butlastD)
next
  case (Cons c s)
  show ?case
  proof (cases "c = CHR 0x0A")
    case True
    have "lines_ok (split_lines [] s)" by (rule Cons.IH) simp
    moreover have "proper_line (cur @ [c])" using Cons.prems by (simp add: proper_line_def)
    ultimately show ?thesis using True
      by (cases "split_lines [] s") simp_all
  next
    case False
    with Cons.prems have "CHR 0x0A \<notin> set (cur @ [c])" by auto
    then have "lines_ok (split_lines (cur @ [c]) s)" by (rule Cons.IH)
    with False show ?thesis by simp
  qed
qed

lemma lines_ok_readlines: "lines_ok (readlines txt)"
  by (simp add: readlines_def lines_ok_split_lines)

lemma proper_line_cases:
  assumes "proper_line l"
  obtains b where "l = b @ [CHR 0x0A]" "CHR 0x0A \<notin> set b"
        | "CHR 0x0A \<notin> set l" "l \<noteq> []"
proof (cases "last l = CHR 0x0A")
  case True
  from assms have "l \<noteq> []" by (simp add: proper_line_def)
  then have "l = butlast l @ [CHR 0x0A]" using True by (metis append_butlast_last_id)
  moreover from assms have "CHR 0x0A \<notin> set (butlast l)" by (simp add: proper_line_def)
  ultimately show ?thesis using that(1) by blast
next
  case False
  from assms have ne: "l \<noteq> []" and nb: "CHR 0x0A \<notin> set (butlast l)"
    by (simp_all add: proper_line_def)
  have "set l = set (butlast l) \<union> {last l}"
    using ne by (metis append_butlast_last_id list.set(1) list.simps(15) set_append Un_insert_right sup_bot.right_neutral)
  with False nb have "CHR 0x0A \<notin> set l" by auto
  with ne show ?thesis using that(2) by blast
qed

lemma readlines_concat: "lines_ok ls \<Longrightarrow> readlines (concat ls) = ls"
proof (induction ls rule: lines_ok.induct)
  case 1
  show ?case by (simp add: readlines_def)
next
  case (2 l)
  then have "proper_line l" by simp
  then show ?case
  proof (cases rule: proper_line_cases)
    case (1 b)
    then show ?thesis
      using split_lines_line [of b "[]" "[]"] by (simp add: readlines_def)
  next
    case 2
    then show ?thesis by (simp add: readlines_def split_lines_no_newline)
  qed
next
  case (3 l l2 ls)
  then have p: "proper_line l" and la: "last l = CHR 0x0A" and ok: "lines_ok (l2 # ls)" by simp_all
  have ih: "readlines (concat (l2 # ls)) = l2 # ls" using 3 ok by simp
  from p show ?case
  proof (cases rule: proper_line_cases)
    case (1 b)
    have "split_lines [] (b @ CHR 0x0A # concat (l2 # ls)) = (b @ [CHR 0x0A]) # split_lines [] (concat (l2 # ls))"
      using split_lines_line [OF 1(2), of "[]" "concat (l2 # ls)"] by simp
    then show ?thesis using 1(1) ih by (simp add: readlines_def)
  next
    case 2
    with la show ?thesis by (metis last_in_set)
  qed
qed

lemma readlines_writelines: "lines_ok ls \<Longrightarrow> readlines (writelines ls) = ls"
  by (simp add: writelines_def readlines_concat)


section \<open>The two loops of the repositioning\<close>

lemma py_float_empty: "py_float [] = Inl ValueError"
  by (simp add: py_float_def strip_def parse_number_def)

lemma parse_xyz_Inr_iff:
  "parse_xyz l = Inr (x, y, z) \<longleftrightarrow>
     py_float (slice 30 38 l) = Inr x \<and> py_float (slice 38 46 l) = Inr y \<and> py_float (slice 46 54 l) = Inr z"
  by (auto simp add: parse_xyz_def split: sum.splits)

lemma parse_xyz_short:
  assumes "length l \<le> 46"
  shows "parse_xyz l = Inl ValueError"
proof -
  have "slice 46 54 l = []" using assms by (simp add: slice_def)
  then have z: "py_float (slice 46 54 l) = Inl ValueError" by (simp add: py_float_empty)
  have "\<And>s. py_float s = Inl ValueError \<or> (\<exists>v. py_float s = Inr v)"
    by (simp add: py_float_def split: option.splits prod.splits)
  then show ?thesis
    using z by (auto simp add: parse_xyz_def split: sum.splits) (metis sum.distinct(1) sum.inject(1))+
qed

lemma parse_xyz_length: "parse_xyz l = Inr c \<Longrightarrow> 46 < length l"
  using parse_xyz_short [of l] by (cases "length l \<le> 46") auto

lemma new_line_parsed:
  "parse_xyz l = Inr (x, y, z) \<Longrightarrow>
     new_line (tx, ty, tz) l = Inr (take 30 l @ format_8_3f (fadd x tx) @ format_8_3f (fadd y ty)
                                      @ format_8_3f (fadd z tz) @ drop 54 l)"
  by simp

lemma new_line_ok: "parse_xyz l = Inr c \<Longrightarrow> \<exists>l'. new_line tr l = Inr l'"
  by (cases tr; cases c) simp

lemma moved_line_other: "\<not> is_atom_line l \<Longrightarrow> moved_line tr l = l"
  by (simp add: moved_line_def)

lemma moved_line_atom:
  "is_atom_line l \<Longrightarrow> parse_xyz l = Inr (x, y, z) \<Longrightarrow>
     moved_line (tx, ty, tz) l = take 30 l @ format_8_3f (fadd x tx) @ format_8_3f (fadd y ty)
                                      @ format_8_3f (fadd z tz) @ drop 54 l"
  by (simp add: moved_line_def)

lemma new_line_moved:
  "is_atom_line l \<Longrightarrow> parse_xyz l = Inr c \<Longrightarrow> new_line tr l = Inr (moved_line tr l)"
  by (cases tr; cases c) (simp add: moved_line_def)

lemma apply_translation_find_atoms:
  "find_atoms (length pre) rest = Inr (idx, cs) \<Longrightarrow>
     apply_translation tr idx (pre @ rest) = Inr (pre @ map (moved_line tr) rest)"
proof (induction rest arbitrary: pre idx cs)
  case Nil
  then show ?case by simp
next
  case (Cons l rest)
  show ?case
  proof (cases "is_atom_line l")
    case True
    with Cons.prems obtain c idx' cs' where
      p: "parse_xyz l = Inr c" and
      f: "find_atoms (Suc (length pre)) rest = Inr (idx', cs')" and
      i: "idx = length pre # idx'"
      by (auto split: sum.splits)
    have "find_atoms (length (pre @ [moved_line tr l])) rest = Inr (idx', cs')" using f by simp
    then have "apply_translation tr idx' ((pre @ [moved_line tr l]) @ rest)
                 = Inr ((pre @ [moved_line tr l]) @ map (moved_line tr) rest)"
      by (rule Cons.IH)
    then show ?thesis
      using i new_line_moved [OF True p, of tr] by simp
  next
    case False
    with Cons.prems have "find_atoms (length (pre @ [l])) rest = Inr (idx, cs)" by simp
    then have "apply_translation tr idx ((pre @ [l]) @ rest) = Inr ((pre @ [l]) @ map (moved_line tr) rest)"
      by (rule Cons.IH)
    with False show ?thesis by (simp add: moved_line_other)
  qed
qed

lemma find_atoms_no_atoms:
  "list_all (\<lambda>l. \<not> is_atom_line l) ls \<Longrightarrow> find_atoms i ls = Inr ([], [])"
  by (induction ls arbitrary: i) auto

lemma find_atoms_bad_line:
  "l \<in> set ls \<Longrightarrow> is_atom_line l \<Longrightarrow> parse_xyz l = Inl e \<Longrightarrow> \<exists>e'. find_atoms i ls = Inl e'"
proof (induction ls arbitrary: i)
  case Nil
  then show ?case by simp
next
  case (Cons a ls)
  show ?case
  proof (cases "a = l")
    case True
    with Cons.prems show ?thesis by simp
  next
    case False
    with Cons.prems have "\<exists>e'. find_atoms (Suc i) ls = Inl e'" by (intro Cons.IH) auto
    then show ?thesis by (auto split: sum.splits)
  qed
qed

lemma find_atoms_coords:
  "find_atoms i ls = Inr (idx, cs) \<Longrightarrow> map parse_xyz (filter is_atom_line ls) = map Inr cs"
proof (induction ls arbitrary: i idx cs)
  case Nil
  then show ?case by simp
next
  case (Cons l ls)
  show ?case
  proof (cases "is_atom_line l")
    case True
    with Cons.prems obtain c idx' cs' where
      p: "parse_xyz l = Inr c" and
      f: "find_atoms (Suc i) ls = Inr (idx', cs')" and
      c: "cs = c # cs'"
      by (auto split: sum.splits)
    from Cons.IH [OF f] True p c show ?thesis by simp
  next
    case False
    with Cons.prems have "find_atoms (Suc i) ls = Inr (idx, cs)" by simp
    from Cons.IH [OF this] False show ?thesis by simp
  qed
qed

lemma find_atoms_mapped:
  assumes "find_atoms i ls = Inr (idx, cs)"
    and "\<And>l. l \<in> set ls \<Longrightarrow> is_atom_line (f l) = is_atom_line l"
    and "\<And>l c. l \<in> set ls \<Longrightarrow> is_atom_line l \<Longrightarrow> parse_xyz l = Inr c \<Longrightarrow> parse_xyz (f l) = Inr (g c)"
  shows "find_atoms i (map f ls) = Inr (idx, map g cs)"
  using assms
proof (induction ls arbitrary: i idx cs)
  case Nil
  then show ?case by simp
next
  case (Cons l ls)
  show ?case
  proof (cases "is_atom_line l")
    case True
    with Cons.prems(1) obtain c idx' cs' where
      p: "parse_xyz l = Inr c" and
      f: "find_atoms (Suc i) ls = Inr (idx', cs')" and
      c: "idx = i # idx'" "cs = c # cs'"
      by (auto split: sum.splits)
    have "find_atoms (Suc i) (map f ls) = Inr (idx', map g cs')"
      using f Cons.prems(2,3) by (intro Cons.IH) auto
    moreover have "is_atom_line (f l)" using True Cons.prems(2) by simp
    moreover have "parse_xyz (f l) = Inr (g c)" using True p Cons.prems(3) by simp
    ultimately show ?thesis using c by simp
  next
    case False
    with Cons.prems(1) have f: "find_atoms (Suc i) ls = Inr (idx, cs)" by simp
    have "find_atoms (Suc i) (map f ls) = Inr (idx, map g cs)"
      using f Cons.prems(2,3) by (intro Cons.IH) auto
    moreover have "\<not> is_atom_line (f l)" using False Cons.prems(2) by simp
    ultimately show ?thesis by simp
  qed
qed

lemma find_atoms_atom_lines:
  "find_atoms i ls = Inr (idx, cs) \<Longrightarrow> l \<in> set ls \<Longrightarrow> is_atom_line l \<Longrightarrow>
     \<exists>c \<in> set cs. parse_xyz l = Inr c"
proof -
  assume a: "find_atoms i ls = Inr (idx, cs)" "l \<in> set ls" "is_atom_line l"
  then have "parse_xyz l \<in> set (map parse_xyz (filter is_atom_line ls))" by simp
  then have "parse_xyz l \<in> set (map Inr cs)" using find_atoms_coords [OF a(1)] by simp
  then show ?thesis by auto
qed



lemma reposition_ligand_moved:
  assumes "read_text fs inp = Inr txt"
    and "find_atoms 0 (readlines txt) = Inr (idx, cs)"
    and "cs \<noteq> []"
    and "center cs = Inr c"
    and "\<not> unwritable fs out"
  shows "reposition_ligand fs inp out target =
           (True, fs\<lparr>contents := (contents fs)
              (out \<mapsto> writelines (map (moved_line (translation target c)) (readlines txt)))\<rparr>)"
proof -
  have "apply_translation (translation target c) idx ([] @ readlines txt)
          = Inr ([] @ map (moved_line (translation target c)) (readlines txt))"
    by (rule apply_translation_find_atoms) (simp add: assms(2))
  then show ?thesis
    using assms by (simp add: reposition_ligand_def reposition_body_def write_text_def)
qed

lemma reposition_ligand_unreadable:
  "read_text fs inp = Inl e \<Longrightarrow> reposition_ligand fs inp out target = (False, fs)"
  by (simp add: reposition_ligand_def reposition_body_def)

lemma reposition_ligand_malformed:
  "read_text fs inp = Inr txt \<Longrightarrow> find_atoms 0 (readlines txt) = Inl e \<Longrightarrow>
     reposition_ligand fs inp out target = (False, fs)"
  by (simp add: reposition_ligand_def reposition_body_def)




section \<open>Arithmetic on coordinates\<close>







lemma foldl_fadd_finite:
  "list_all is_finite xs \<Longrightarrow> foldl fadd (Fin a) xs = Fin (a + sum_list (map fval xs))"
proof (induction xs arbitrary: a)
  case Nil
  then show ?case by simp
next
  case (Cons x xs)
  then have x: "is_finite x" and xs: "list_all is_finite xs" by simp_all
  from x have "fadd (Fin a) x = Fin (a + fval x)"
    by (cases x) (simp_all add: is_finite_simps fval_simps)
  then show ?case using Cons.IH [OF xs, of "a + fval x"] by (simp add: add.assoc)
qed

lemma fsum_finite: "list_all is_finite xs \<Longrightarrow> fsum xs = Fin (sum_list (map fval xs))"
  by (simp add: fsum_def foldl_fadd_finite)

lemma fdiv_len_Fin: "0 < n \<Longrightarrow> fdiv_len (Fin q) n = Inr (Fin (q / of_nat n))"
  by (cases n) simp_all

lemma mean_finite:
  assumes "list_all is_finite xs" "xs \<noteq> []"
  shows "fdiv_len (fsum xs) (length xs) = Inr (Fin (sum_list (map fval xs) / of_nat (length xs)))"
  using assms by (simp add: fsum_finite fdiv_len_Fin)




section \<open>The rewritten atom line\<close>

lemma is_atom_line_prefix:
  assumes "6 \<le> length p"
  shows "is_atom_line (p @ r) = is_atom_line p"
  using assms by (simp add: is_atom_line_def startswith_def)

lemma is_atom_line_take: "is_atom_line (take 30 l) = is_atom_line l"
  by (simp add: is_atom_line_def startswith_def take_take)

lemma slices_of_record:
  assumes "length p = 30" "length fx = 8" "length fy = 8" "length fz = 8"
  shows "slice 30 38 (p @ fx @ fy @ fz @ r) = fx"
    and "slice 38 46 (p @ fx @ fy @ fz @ r) = fy"
    and "slice 46 54 (p @ fx @ fy @ fz @ r) = fz"
  using assms by (simp_all add: slice_def)

lemma moved_line_shape:
  assumes a: "is_atom_line l" and p: "parse_xyz l = Inr c"
  shows "moved_line tr l =
           take 30 l @ format_8_3f (fst (translated tr c)) @ format_8_3f (fst (snd (translated tr c)))
             @ format_8_3f (snd (snd (translated tr c))) @ drop 54 l"
  using moved_line_atom [OF a] p by (cases tr; cases c) simp

lemma moved_line_is_atom_line: "is_atom_line (moved_line tr l) = is_atom_line l"
proof (cases "is_atom_line l")
  case False
  then show ?thesis by (simp add: moved_line_other)
next
  case True
  show ?thesis
  proof (cases "parse_xyz l")
    case (Inl e)
    then show ?thesis by (cases tr) (simp add: moved_line_def)
  next
    case (Inr c)
    have len: "length (take 30 l) = 30" using parse_xyz_length [OF Inr] by simp
    have six: "6 \<le> length (take 30 l)" using len by linarith
    have "is_atom_line (moved_line tr l) = is_atom_line (take 30 l)"
      unfolding moved_line_shape [OF True Inr] by (rule is_atom_line_prefix [OF six])
    then show ?thesis by (simp add: is_atom_line_take)
  qed
qed

lemma moved_line_parse:
  assumes a: "is_atom_line l" and p: "parse_xyz l = Inr c"
    and fld: "coord_all in_field (translated tr c)"
  shows "parse_xyz (moved_line tr l) = Inr (coord_map rounded3 (translated tr c))"
proof -
  obtain x y z where t: "translated tr c = (x, y, z)" by (cases "translated tr c") auto
  from fld t have f: "in_field x" "in_field y" "in_field z" by simp_all
  have len: "length (take 30 l) = 30" using parse_xyz_length [OF p] by simp
  have m: "moved_line tr l = take 30 l @ format_8_3f x @ format_8_3f y @ format_8_3f z @ drop 54 l"
    using moved_line_shape [OF a p, of tr] t by simp
  note s = slices_of_record [OF len length_format_in_field [OF f(1)]
      length_format_in_field [OF f(2)] length_format_in_field [OF f(3)], of "drop 54 l"]
  show ?thesis
    unfolding m parse_xyz_def s
    by (simp add: t py_float_format_finite in_field_finite f)
qed


lemma moved_line_proper:
  assumes a: "is_atom_line l" and p: "parse_xyz l = Inr c" and full: "full_record l"
    and pl: "proper_line l"
  shows "proper_line (moved_line tr l)"
    and "last l = CHR 0x0A \<Longrightarrow> last (moved_line tr l) = CHR 0x0A"
proof -
  obtain x y z where t: "translated tr c = (x, y, z)" by (cases "translated tr c") auto
  let ?F = "format_8_3f x @ format_8_3f y @ format_8_3f z"
  have m: "moved_line tr l = take 30 l @ ?F @ drop 54 l"
    using moved_line_shape [OF a p, of tr] t by simp
  have nF: "CHR 0x0A \<notin> set ?F" by (simp add: format_no_newline)
  have n54: "CHR 0x0A \<notin> set (take 54 l)" and len: "54 \<le> length l"
    using full by (simp_all add: full_record_def)
  have n30: "CHR 0x0A \<notin> set (take 30 l)"
  proof -
    have "take 30 l = take 30 (take 54 l)" by (simp add: take_take)
    then have "set (take 30 l) \<subseteq> set (take 54 l)" by (metis set_take_subset)
    with n54 show ?thesis by auto
  qed
  have ne: "moved_line tr l \<noteq> []" by (simp add: m format_nonempty)
  show "proper_line (moved_line tr l)"
  proof (cases "drop 54 l = []")
    case True
    then have "moved_line tr l = take 30 l @ ?F" by (simp add: m)
    moreover have "CHR 0x0A \<notin> set (take 30 l @ ?F)" using n30 nF by simp
    ultimately have "CHR 0x0A \<notin> set (butlast (moved_line tr l))"
      by (metis in_set_butlastD)
    with ne show ?thesis by (simp add: proper_line_def)
  next
    case False
    then have b: "butlast (moved_line tr l) = take 30 l @ ?F @ butlast (drop 54 l)"
      by (simp add: m butlast_append)
    have "butlast (drop 54 l) = drop 54 (butlast l)" by (rule butlast_drop)
    then have "set (butlast (drop 54 l)) \<subseteq> set (butlast l)" by (metis set_drop_subset)
    moreover have "CHR 0x0A \<notin> set (butlast l)" using pl by (simp add: proper_line_def)
    ultimately have "CHR 0x0A \<notin> set (butlast (drop 54 l))" by auto
    with n30 nF show ?thesis by (simp add: proper_line_def ne b)
  qed
  show "last (moved_line tr l) = CHR 0x0A" if la: "last l = CHR 0x0A"
  proof -
    have "l \<noteq> []" using pl by (simp add: proper_line_def)
    have "drop 54 l \<noteq> []"
    proof
      assume "drop 54 l = []"
      then have "take 54 l = l" by simp
      with n54 have "CHR 0x0A \<notin> set l" by simp
      with la \<open>l \<noteq> []\<close> show False by (metis last_in_set)
    qed
    then show ?thesis using la by (simp add: m)
  qed
qed

lemma lines_ok_map:
  assumes "lines_ok ls"
    and "\<And>l. l \<in> set ls \<Longrightarrow> proper_line l \<Longrightarrow> proper_line (f l)"
    and "\<And>l. l \<in> set ls \<Longrightarrow> proper_line l \<Longrightarrow> last l = CHR 0x0A \<Longrightarrow> last (f l) = CHR 0x0A"
  shows "lines_ok (map f ls)"
  using assms
proof (induction ls rule: lines_ok.induct)
  case 1
  show ?case by simp
next
  case (2 l)
  then show ?case by simp
next
  case (3 l l2 ls)
  then have "lines_ok (map f (l2 # ls))" by (intro 3(1)) auto
  moreover have "proper_line (f l)" "last (f l) = CHR 0x0A" using 3(2,3,4) by auto
  ultimately show ?case by simp
qed

lemma lines_ok_moved:
  assumes fa: "find_atoms i ls = Inr (idx, cs)"
    and ok: "lines_ok ls"
    and full: "list_all full_record (filter is_atom_line ls)"
  shows "lines_ok (map (moved_line tr) ls)"
proof (rule lines_ok_map [OF ok])
  fix l assume l: "l \<in> set ls" and pl: "proper_line l"
  show "proper_line (moved_line tr l)"
  proof (cases "is_atom_line l")
    case True
    obtain c where c: "parse_xyz l = Inr c" using find_atoms_atom_lines [OF fa l True] by blast
    have "full_record l" using full l True by (simp add: list_all_iff)
    then show ?thesis using moved_line_proper(1) [OF True c _ pl] by simp
  next
    case False
    with pl show ?thesis by (simp add: moved_line_other)
  qed
  show "last (moved_line tr l) = CHR 0x0A" if la: "last l = CHR 0x0A"
  proof (cases "is_atom_line l")
    case True
    obtain c where c: "parse_xyz l = Inr c" using find_atoms_atom_lines [OF fa l True] by blast
    have "full_record l" using full l True by (simp add: list_all_iff)
    then show ?thesis using moved_line_proper(2) [OF True c _ pl la] by simp
  next
    case False
    with la show ?thesis by (simp add: moved_line_other)
  qed
qed


section \<open>Runs of the repositioning\<close>

subsection \<open>Evaluation on sample data\<close>

lemmas py_float_eval = py_float_def strip_def parse_number_def is_space_def is_digit_def
  ascii_lower_def nat_of_digits_def digit_val_def scale10_def

lemma digits_of_small: "n < 10 \<Longrightarrow> digits_of n = [digit_char n]"
  by (subst digits_of.simps) simp

lemma digits_of_large: "10 \<le> n \<Longrightarrow> digits_of n = digits_of (n div 10) @ [digit_char (n mod 10)]"
  by (subst digits_of.simps) simp

lemma replicate_small:
  "replicate 1 c = [c]" "replicate 2 c = [c, c]" "replicate 3 c = [c, c, c]"
  "replicate 4 c = [c, c, c, c]" "replicate 5 c = [c, c, c, c, c]"
  "replicate 6 c = [c, c, c, c, c, c]" "replicate 7 c = [c, c, c, c, c, c, c]"
  by (simp_all add: numeral_eq_Suc)

lemma digit_char_one: "digit_char (Suc 0) = CHR ''1''"
  using digit_char_values(2) by simp

lemmas format_eval = replicate_small digit_char_one rjust_def fixed3_def round_half_even_def
  digits_of_small digits_of_large digit_char_values Let_def

lemma read_fs_with: "read_text (fs_with txt) ''in.pdbqt'' = Inr txt"
  by (simp add: read_text_def fs_with_def)

lemma write_fs_with: "\<not> unwritable (fs_with txt) ''out.pdbqt''"
  by (simp add: fs_with_def)


lemma line_remark_no_atom: "\<not> is_atom_line line_remark" "\<not> is_atom_line ''END''"
  by (simp_all add: is_atom_line_def startswith_def line_remark_def nl_def)

subsection \<open>No atoms\<close>

text \<open>
  Claim C5. When the input holds no line that starts with \<^verbatim>\<open>HETATM\<close> or \<^verbatim>\<open>ATOM\<close>, the
  body returns \<^verbatim>\<open>False\<close> at the test \<^verbatim>\<open>if not coords\<close> (it raises nothing, so no centre
  and no translation is computed), \<^verbatim>\<open>reposition_ligand\<close> returns \<^verbatim>\<open>False\<close>, and the file
  system is what it was: no output file is written.
\<close>

theorem reposition_no_atoms_fails:
  assumes "read_text fs input_file = Inr txt"
    and "list_all (\<lambda>l. \<not> is_atom_line l) (readlines txt)"
  shows "reposition_body fs input_file output_file target = Inr (False, fs)
         \<and> reposition_ligand fs input_file output_file target = (False, fs)"
  using assms find_atoms_no_atoms [OF assms(2), of 0]
  by (simp add: reposition_ligand_def reposition_body_def)

lemma readlines_no_atoms: "readlines no_atoms = [line_remark, ''END'' @ nl]"
  by (simp add: readlines_def no_atoms_def line_remark_def nl_def)

theorem reposition_no_atoms_fails_witness:
  "read_text (fs_with no_atoms) ''in.pdbqt'' = Inr no_atoms
   \<and> list_all (\<lambda>l. \<not> is_atom_line l) (readlines no_atoms)
   \<and> reposition_ligand (fs_with no_atoms) ''in.pdbqt'' ''out.pdbqt'' (Fin 10, Fin 10, Fin 10)
       = (False, fs_with no_atoms)
   \<and> contents (fs_with no_atoms) ''out.pdbqt'' = None"
proof -
  have a: "list_all (\<lambda>l. \<not> is_atom_line l) (readlines no_atoms)"
    by (simp add: readlines_no_atoms line_remark_no_atom)
       (simp add: is_atom_line_def startswith_def nl_def)
  show ?thesis
    using reposition_no_atoms_fails [OF read_fs_with a, of "''out.pdbqt''" "(Fin 10, Fin 10, Fin 10)"] a
    by (simp add: read_fs_with) (simp add: fs_with_def)
qed

subsection \<open>Malformed atom lines\<close>

text \<open>
  Claim C4, as amended. If some line that starts with \<^verbatim>\<open>HETATM\<close> or \<^verbatim>\<open>ATOM\<close> has at most
  46 characters, or one of its slices \<^verbatim>\<open>[30:38]\<close>, \<^verbatim>\<open>[38:46]\<close>, \<^verbatim>\<open>[46:54]\<close> is text that
  \<^verbatim>\<open>float\<close> rejects, then \<^verbatim>\<open>reposition_ligand\<close> returns \<^verbatim>\<open>False\<close> and the file system is
  what it was: nothing is written, not even in part.
\<close>

theorem reposition_malformed_fails:
  assumes "contents fs input_file = Some txt"
    and "l \<in> set (readlines txt)"
    and "is_atom_line l"
    and "length l \<le> 46 \<or> isl (py_float (slice 30 38 l)) \<or> isl (py_float (slice 38 46 l))
         \<or> isl (py_float (slice 46 54 l))"
  shows "reposition_ligand fs input_file output_file target = (False, fs)"
proof (cases "unreadable fs input_file")
  case True
  then have "read_text fs input_file = Inl OSError" by (simp add: read_text_def)
  then show ?thesis by (rule reposition_ligand_unreadable)
next
  case False
  with assms(1) have r: "read_text fs input_file = Inr txt" by (simp add: read_text_def)
  have "\<exists>e. parse_xyz l = Inl e"
  proof (cases "length l \<le> 46")
    case True
    then show ?thesis using parse_xyz_short by blast
  next
    case False
    with assms(4) show ?thesis
      by (auto simp add: parse_xyz_def isl_def split: sum.splits)
  qed
  then obtain e where "parse_xyz l = Inl e" by blast
  then obtain e' where "find_atoms 0 (readlines txt) = Inl e'"
    using find_atoms_bad_line [OF assms(2,3)] by blast
  with r show ?thesis by (rule reposition_ligand_malformed)
qed

lemma readlines_bad_file: "readlines bad_file = [line_remark, line_bad, ''END'']"
  by (simp add: readlines_def bad_file_def line_remark_def line_bad_def nl_def)

lemma line_bad_field: "py_float (slice 38 46 line_bad) = Inl ValueError"
  by (simp add: slice_def line_bad_def py_float_eval)

theorem reposition_malformed_fails_witness:
  "contents (fs_with bad_file) ''in.pdbqt'' = Some bad_file
   \<and> line_bad \<in> set (readlines bad_file)
   \<and> is_atom_line line_bad
   \<and> isl (py_float (slice 38 46 line_bad))
   \<and> reposition_ligand (fs_with bad_file) ''in.pdbqt'' ''out.pdbqt'' (Fin 10, Fin 10, Fin 10)
       = (False, fs_with bad_file)"
proof -
  have c: "contents (fs_with bad_file) ''in.pdbqt'' = Some bad_file" by (simp add: fs_with_def)
  have m: "line_bad \<in> set (readlines bad_file)" by (simp add: readlines_bad_file)
  have a: "is_atom_line line_bad"
    by (simp add: is_atom_line_def startswith_def line_bad_def)
  have b: "isl (py_float (slice 38 46 line_bad))" by (simp add: line_bad_field)
  show ?thesis
    using reposition_malformed_fails [OF c m a, of "''out.pdbqt''" "(Fin 10, Fin 10, Fin 10)"] c m a b
    by simp
qed

text \<open>An atom line of 53 characters whose cut third field still reads as a number: the
  run succeeds and writes the output (in which the line has lost its line feed).\<close>

lemma readlines_short_file: "readlines short_file = [line_short, ''END'']"
  by (simp add: readlines_def short_file_def line_short_def nl_def)

lemma line_short_atom: "is_atom_line line_short"
  by (simp add: is_atom_line_def startswith_def line_short_def)

lemma parse_line_short: "parse_xyz line_short = Inr (Fin 1, Fin 2, Fin 3)"
  by (simp add: parse_xyz_def slice_def line_short_def nl_def py_float_eval)

lemma moved_line_short: "moved_line (Fin (- 1), Fin (- 2), Fin (- 3)) line_short = line_short_moved"
  unfolding moved_line_atom [OF line_short_atom parse_line_short]
  by (simp add: format_eval) (simp add: line_short_def line_short_moved_def nl_def)

theorem short_line_counterexample:
  "is_atom_line line_short \<and> length line_short < 54
   \<and> reposition_ligand (fs_with short_file) ''in.pdbqt'' ''out.pdbqt'' (Fin 0, Fin 0, Fin 0)
       = (True, wrote (fs_with short_file) (line_short_moved @ ''END''))"
proof -
  have f: "find_atoms 0 (readlines short_file) = Inr ([0], [(Fin 1, Fin 2, Fin 3)])"
    by (simp add: readlines_short_file line_short_atom parse_line_short line_remark_no_atom)
  have c: "center [(Fin 1, Fin 2, Fin 3)] = Inr (Fin 1, Fin 2, Fin 3)"
    by (simp add: center_def fsum_def)
  have "reposition_ligand (fs_with short_file) ''in.pdbqt'' ''out.pdbqt'' (Fin 0, Fin 0, Fin 0)
     = (True, (fs_with short_file)\<lparr>contents := (contents (fs_with short_file))
              (''out.pdbqt'' \<mapsto> writelines (map (moved_line (translation (Fin 0, Fin 0, Fin 0) (Fin 1, Fin 2, Fin 3))) (readlines short_file)))\<rparr>)"
    by (rule reposition_ligand_moved [OF read_fs_with f _ c write_fs_with]) simp
  moreover have "translation (Fin 0, Fin 0, Fin 0) (Fin 1, Fin 2, Fin 3) = (Fin (- 1), Fin (- 2), Fin (- 3))"
    by (simp add: fsub_def)
  moreover have "writelines (map (moved_line (Fin (- 1), Fin (- 2), Fin (- 3))) (readlines short_file))
                   = line_short_moved @ ''END''"
    by (simp add: readlines_short_file writelines_def moved_line_short moved_line_other line_remark_no_atom)
  moreover have "length line_short < 54" by (simp add: line_short_def nl_def)
  ultimately show ?thesis by (simp add: wrote_def line_short_atom)
qed

subsection \<open>Every failure is a \<^verbatim>\<open>False\<close>\<close>




section \<open>What a successful run writes\<close>

subsection \<open>The output of a successful run\<close>

lemma reposition_output:
  assumes r: "read_text fs inp = Inr content"
    and fa: "find_atoms 0 (readlines content) = Inr (idx, cs)"
    and ne: "cs \<noteq> []"
    and c: "center cs = Inr c"
    and d: "\<not> unwritable fs out"
    and full: "list_all full_record (filter is_atom_line (readlines content))"
  shows "\<exists>fs'. reposition_ligand fs inp out target = (True, fs')
           \<and> contents fs' out = Some (writelines (map (moved_line (translation target c)) (readlines content)))"
    and "readlines (writelines (map (moved_line (translation target c)) (readlines content)))
           = map (moved_line (translation target c)) (readlines content)"
proof -
  let ?ls' = "map (moved_line (translation target c)) (readlines content)"
  let ?fs' = "fs\<lparr>contents := (contents fs)(out \<mapsto> writelines ?ls')\<rparr>"
  have "reposition_ligand fs inp out target = (True, ?fs')"
    by (rule reposition_ligand_moved [OF r fa ne c d])
  moreover have "contents ?fs' out = Some (writelines ?ls')"
    by simp
  ultimately show "\<exists>fs'. reposition_ligand fs inp out target = (True, fs')
           \<and> contents fs' out = Some (writelines ?ls')"
    by blast
  have "lines_ok ?ls'"
    by (rule lines_ok_moved [OF fa lines_ok_readlines full])
  then show "readlines (writelines ?ls') = ?ls'" by (rule readlines_writelines)
qed


lemma find_atoms_moved:
  assumes fa: "find_atoms i ls = Inr (idx, cs)"
    and fld: "list_all (\<lambda>p. coord_all in_field (translated tr p)) cs"
  shows "find_atoms i (map (moved_line tr) ls)
           = Inr (idx, map (\<lambda>p. coord_map rounded3 (translated tr p)) cs)"
proof (rule find_atoms_mapped [OF fa])
  fix l assume "l \<in> set ls"
  show "is_atom_line (moved_line tr l) = is_atom_line l" by (rule moved_line_is_atom_line)
next
  fix l p assume l: "l \<in> set ls" and a: "is_atom_line l" and p: "parse_xyz l = Inr p"
  obtain p' where p': "p' \<in> set cs" "parse_xyz l = Inr p'"
    using find_atoms_atom_lines [OF fa l a] by blast
  with p have "p \<in> set cs" by simp
  with fld have "coord_all in_field (translated tr p)" by (simp add: list_all_iff)
  then show "parse_xyz (moved_line tr l) = Inr (coord_map rounded3 (translated tr p))"
    by (rule moved_line_parse [OF a p])
qed

lemma center_Inr_iff:
  "center cs = Inr (a, b, c) \<longleftrightarrow>
     fdiv_len (fsum (map (\<lambda>(x, y, z). x) cs)) (length cs) = Inr a
   \<and> fdiv_len (fsum (map (\<lambda>(x, y, z). y) cs)) (length cs) = Inr b
   \<and> fdiv_len (fsum (map (\<lambda>(x, y, z). z) cs)) (length cs) = Inr c"
  by (auto simp add: center_def split: sum.splits)


subsection \<open>The two-atom scenario\<close>

lemma readlines_two_atoms: "readlines two_atoms = [line_remark, line_c, line_o, ''END'']"
  by (simp add: readlines_def two_atoms_def line_remark_def line_c_def line_o_def nl_def)


lemma two_atom_lines:
  "is_atom_line line_c" "is_atom_line line_o" "is_atom_line line_c_moved" "is_atom_line line_o_moved"
  by (simp_all add: is_atom_line_def startswith_def line_c_def line_o_def line_c_moved_def
      line_o_moved_def)

lemma parse_two_atoms:
  "parse_xyz line_c = Inr (Fin 0, Fin 0, Fin 0)" "parse_xyz line_o = Inr (Fin 2, Fin 2, Fin 2)"
  "parse_xyz line_c_moved = Inr (Fin 9, Fin 9, Fin 9)"
  "parse_xyz line_o_moved = Inr (Fin 11, Fin 11, Fin 11)"
  by (simp_all add: parse_xyz_def slice_def line_c_def line_o_def line_c_moved_def
      line_o_moved_def py_float_eval)

lemma find_two_atoms:
  "find_atoms 0 (readlines two_atoms) = Inr ([1, 2], [(Fin 0, Fin 0, Fin 0), (Fin 2, Fin 2, Fin 2)])"
  by (simp add: readlines_two_atoms line_remark_no_atom two_atom_lines parse_two_atoms)


lemma center_two_atoms:
  "center [(Fin 0, Fin 0, Fin 0), (Fin 2, Fin 2, Fin 2)] = Inr (Fin 1, Fin 1, Fin 1)"
  "center [(Fin 9, Fin 9, Fin 9), (Fin 11, Fin 11, Fin 11)] = Inr (Fin 10, Fin 10, Fin 10)"
  by (simp_all add: center_def fsum_def)

lemma full_two_atoms: "list_all full_record (filter is_atom_line (readlines two_atoms))"
  by (simp add: readlines_two_atoms line_remark_no_atom two_atom_lines)
     (simp add: full_record_def line_c_def line_o_def nl_def)



subsection \<open>The frame of the output\<close>






subsection \<open>The centroid of the output\<close>








subsection \<open>Moving a structure to its own centroid\<close>

lemma fsub_self_Fin: "fsub (Fin a) (Fin a) = Fin 0"
  by (simp add: fsub_def)

lemma on_grid_finite: "on_grid x \<Longrightarrow> is_finite x"
  by (cases x) (simp_all add: on_grid_def is_finite_simps)

lemma on_grid_unmoved:
  assumes "on_grid x"
  shows "in_field (fadd x (Fin 0))" and "fval (rounded3 (fadd x (Fin 0))) = fval x"
proof -
  show "in_field (fadd x (Fin 0))"
    using assms by (cases x) (simp_all add: on_grid_def in_field_def)
  show "fval (rounded3 (fadd x (Fin 0))) = fval x"
  proof (cases x)
    case (Fin q)
    have "\<exists>n. q * 1000 = of_int n" using assms Fin by (simp add: on_grid_def)
    then obtain k :: int where k: "q * 1000 = of_int k" by blast
    have q: "q = of_int k / 1000" using k by simp
    have a: "\<bar>q\<bar> * 1000 = of_int \<bar>k\<bar>"
    proof -
      have "\<bar>q\<bar> * 1000 = \<bar>q * 1000\<bar>" by (simp add: abs_mult)
      then show ?thesis by (simp only: k of_int_abs)
    qed
    have r: "nat (round_half_even (\<bar>q\<bar> * 1000)) = nat \<bar>k\<bar>"
      by (simp only: a round_half_even_of_int)
    have "q < 0 \<longleftrightarrow> q * 1000 < 0" by simp
    also have "\<dots> \<longleftrightarrow> (of_int k :: rat) < 0" by (simp only: k)
    also have "\<dots> \<longleftrightarrow> k < 0" by simp
    finally have neg: "q < 0 \<longleftrightarrow> k < 0" .
    have "fval (rounded3 (Fin q)) = (if q < 0 then - 1 else 1) * (of_nat (nat \<bar>k\<bar>) / 1000)"
      by (simp only: rounded3_def pyfloat.case r fval_decimal_value) simp
    also have "\<dots> = of_int k / 1000" using neg by (cases "k < 0") simp_all
    finally show ?thesis using Fin q by (simp add: fval_simps)
  next
    case NegZero
    have "round_half_even 0 = 0" using round_half_even_of_int [of 0] by simp
    with NegZero show ?thesis by (simp add: rounded3_def decimal_value_def fval_simps)
  next
    case (Infty neg)
    with assms show ?thesis by (simp add: on_grid_def)
  next
    case NaN
    with assms show ?thesis by (simp add: on_grid_def)
  qed
qed

lemma center_finite:
  assumes "cs \<noteq> []" "list_all (coord_all is_finite) cs" "center cs = Inr c"
  shows "\<exists>a b d. c = (Fin a, Fin b, Fin d)"
proof -
  obtain cx cy cz where cc: "c = (cx, cy, cz)" by (cases c)
  let ?X = "map (\<lambda>(x, y, z). x) cs" and ?Y = "map (\<lambda>(x, y, z). y) cs" and ?Z = "map (\<lambda>(x, y, z). z) cs"
  have fin: "list_all is_finite ?X" "list_all is_finite ?Y" "list_all is_finite ?Z"
    using assms(2) by (auto simp add: list_all_iff)
  have ne: "?X \<noteq> []" "?Y \<noteq> []" "?Z \<noteq> []" using assms(1) by simp_all
  have "fdiv_len (fsum ?X) (length ?X) = Inr cx" "fdiv_len (fsum ?Y) (length ?Y) = Inr cy"
    "fdiv_len (fsum ?Z) (length ?Z) = Inr cz"
    using assms(3) cc by (simp_all add: center_Inr_iff)
  then show ?thesis
    using mean_finite [OF fin(1) ne(1)] mean_finite [OF fin(2) ne(2)] mean_finite [OF fin(3) ne(3)] cc
    by simp
qed

text \<open>
  Claim C6. Take a valid input: the data model's fields, that is, every coordinate of an
  atom line is a multiple of 0.001 between -999.999 and 9999.999, and every atom line
  reaches at least to column 54 before its line end. When the target is the centroid that
  the program computes for this input, \<^verbatim>\<open>reposition_ligand\<close> succeeds and every coordinate read
  back from the output has the value of the corresponding input coordinate.
\<close>

theorem reposition_to_own_centroid:
  assumes "read_text fs input_file = Inr content"
    and "find_atoms 0 (readlines content) = Inr (idx, cs)"
    and "cs \<noteq> []"
    and "center cs = Inr c"
    and "\<not> unwritable fs output_file"
    and "list_all full_record (filter is_atom_line (readlines content))"
    and "list_all (coord_all on_grid) cs"
  shows "\<exists>fs' content' cs'. reposition_ligand fs input_file output_file c = (True, fs')
           \<and> contents fs' output_file = Some content'
           \<and> find_atoms 0 (readlines content') = Inr (idx, cs')
           \<and> map (coord_map fval) cs' = map (coord_map fval) cs"
proof -
  have fin: "list_all (coord_all is_finite) cs"
    using assms(7) on_grid_finite by (auto simp add: list_all_iff)
  obtain a b d where c: "c = (Fin a, Fin b, Fin d)"
    using center_finite [OF assms(3) fin assms(4)] by blast
  have tr: "translation c c = (Fin 0, Fin 0, Fin 0)" by (simp add: c fsub_self_Fin)
  let ?ls' = "map (moved_line (translation c c)) (readlines content)"
  let ?cs' = "map (\<lambda>p. coord_map rounded3 (translated (translation c c) p)) cs"
  have fld: "list_all (\<lambda>p. coord_all in_field (translated (translation c c) p)) cs"
    using assms(7) on_grid_unmoved(1) by (auto simp add: tr list_all_iff)
  obtain fs' where out: "reposition_ligand fs input_file output_file c = (True, fs')"
    "contents fs' output_file = Some (writelines ?ls')"
    using reposition_output(1) [OF assms(1-6)] by blast
  have rt: "readlines (writelines ?ls') = ?ls'"
    by (rule reposition_output(2) [OF assms(1-6)])
  have found: "find_atoms 0 ?ls' = Inr (idx, ?cs')"
    by (rule find_atoms_moved [OF assms(2) fld])
  have "map (coord_map fval) ?cs' = map (coord_map fval) cs"
    using assms(7) on_grid_unmoved(2) by (auto simp add: tr list_all_iff)
  with out rt found show ?thesis by (metis (no_types, lifting))
qed

theorem reposition_to_own_centroid_witness:
  "center [(Fin 0, Fin 0, Fin 0), (Fin 2, Fin 2, Fin 2)] = Inr (Fin 1, Fin 1, Fin 1)
   \<and> list_all (coord_all on_grid) [(Fin 0, Fin 0, Fin 0), (Fin 2, Fin 2, Fin 2)]
   \<and> (\<exists>fs' content' cs'.
         reposition_ligand (fs_with two_atoms) ''in.pdbqt'' ''out.pdbqt'' (Fin 1, Fin 1, Fin 1) = (True, fs')
       \<and> contents fs' ''out.pdbqt'' = Some content'
       \<and> find_atoms 0 (readlines content') = Inr ([1, 2], cs')
       \<and> map (coord_map fval) cs' = [(0, 0, 0), (2, 2, 2)])"
proof -
  have g: "list_all (coord_all on_grid) [(Fin 0, Fin 0, Fin 0), (Fin 2, Fin 2, Fin 2)]"
    by (simp add: on_grid_def)
  have "\<exists>fs' content' cs'.
         reposition_ligand (fs_with two_atoms) ''in.pdbqt'' ''out.pdbqt'' (Fin 1, Fin 1, Fin 1) = (True, fs')
       \<and> contents fs' ''out.pdbqt'' = Some content'
       \<and> find_atoms 0 (readlines content') = Inr ([1, 2], cs')
       \<and> map (coord_map fval) cs' = map (coord_map fval) [(Fin 0, Fin 0, Fin 0), (Fin 2, Fin 2, Fin 2)]"
    by (rule reposition_to_own_centroid [OF read_fs_with find_two_atoms _ center_two_atoms(1)
          write_fs_with full_two_atoms g]) simp
  then show ?thesis using g by (simp add: center_two_atoms fval_simps)
qed


section \<open>Parsing and formatting a coordinate\<close>

subsection \<open>The coordinate field\<close>

lemma nat_of_digits_single: "nat_of_digits [c] = digit_val c"
  by (simp add: nat_of_digits_def)

lemma nat_of_digits_Cons:
  "nat_of_digits (c # cs) = digit_val c * 10 ^ length cs + nat_of_digits cs"
  using nat_of_digits_append [of "[c]" cs] by (simp add: nat_of_digits_single)

lemma nat_of_digits_bound: "list_all is_digit ds \<Longrightarrow> nat_of_digits ds < 10 ^ length ds"
proof (induction ds rule: rev_induct)
  case Nil
  show ?case by (simp add: nat_of_digits_Nil)
next
  case (snoc c ds)
  then have "nat_of_digits ds < 10 ^ length ds" and "digit_val c < 10"
    by (simp_all add: digit_val_less)
  then have "10 * nat_of_digits ds + digit_val c < 10 * 10 ^ length ds" by linarith
  then show ?case by (simp add: nat_of_digits_snoc)
qed

lemma digit_val_pos: "is_digit c \<Longrightarrow> c \<noteq> CHR ''0'' \<Longrightarrow> 0 < digit_val c"
proof -
  assume d: "is_digit c" and n: "c \<noteq> CHR ''0''"
  have "(of_char c :: nat) \<noteq> of_char (CHR ''0'')" using n by (simp only: of_char_eq_iff) simp
  then have "(of_char c :: nat) \<noteq> 48" by simp
  with d show ?thesis by (simp add: is_digit_def digit_val_def)
qed

lemma nat_of_digits_pos:
  assumes "ds \<noteq> []" "list_all is_digit ds" "hd ds \<noteq> CHR ''0''"
  shows "0 < nat_of_digits ds"
proof (cases ds)
  case Nil
  with assms(1) show ?thesis by simp
next
  case (Cons c cs)
  with assms have "0 < digit_val c" by (simp add: digit_val_pos)
  then have "0 < digit_val c * 10 ^ length cs" by simp
  with Cons show ?thesis by (simp add: nat_of_digits_Cons)
qed

lemma digits_of_nat_of_digits:
  "ds \<noteq> [] \<Longrightarrow> list_all is_digit ds \<Longrightarrow> ds = ''0'' \<or> hd ds \<noteq> CHR ''0'' \<Longrightarrow>
     digits_of (nat_of_digits ds) = ds"
proof (induction ds rule: rev_induct)
  case Nil
  then show ?case by simp
next
  case (snoc c ds)
  have c: "is_digit c" using snoc.prems(2) by simp
  show ?case
  proof (cases "ds = []")
    case True
    have "digit_val c < 10" using c by (rule digit_val_less)
    then have "digits_of (digit_val c) = [digit_char (digit_val c)]"
      by (subst digits_of.simps) simp
    with True c show ?thesis by (simp add: nat_of_digits_single digit_char_digit_val)
  next
    case False
    have ds: "list_all is_digit ds" using snoc.prems(2) by simp
    have "ds @ [c] \<noteq> ''0''" using False by (cases ds) auto
    with snoc.prems(3) have "hd (ds @ [c]) \<noteq> CHR ''0''" by blast
    with False have hd: "hd ds \<noteq> CHR ''0''" by simp
    have ih: "digits_of (nat_of_digits ds) = ds" using False ds hd by (intro snoc.IH) simp_all
    have pos: "0 < nat_of_digits ds" by (rule nat_of_digits_pos [OF False ds hd])
    have dv: "digit_val c < 10" using c by (rule digit_val_less)
    let ?n = "10 * nat_of_digits ds + digit_val c"
    have "\<not> ?n < 10" using pos by simp
    then have "digits_of ?n = digits_of (?n div 10) @ [digit_char (?n mod 10)]"
      by (subst digits_of.simps) simp
    moreover have "?n div 10 = nat_of_digits ds" "?n mod 10 = digit_val c" using dv by simp_all
    ultimately show ?thesis
      using ih c by (simp add: nat_of_digits_snoc digit_char_digit_val)
  qed
qed

lemma digits_of_canonical: "digits_of n = ''0'' \<or> hd (digits_of n) \<noteq> CHR ''0''"
proof (induction n rule: digits_of.induct)
  case (1 n)
  show ?case
  proof (cases "n < 10")
    case True
    then have d: "digits_of n = [digit_char n]" by (subst digits_of.simps) simp
    show ?thesis
    proof (cases "n = 0")
      case True
      with d show ?thesis by (simp add: digit_char_values)
    next
      case False
      have "(of_char (digit_char n) :: nat) = 48 + n" using True by (rule of_char_digit_char)
      with False have "(of_char (digit_char n) :: nat) \<noteq> of_char (CHR ''0'')" by simp
      then have "digit_char n \<noteq> CHR ''0''" by (simp only: of_char_eq_iff) simp
      with d show ?thesis by simp
    qed
  next
    case False
    then have d: "digits_of n = digits_of (n div 10) @ [digit_char (n mod 10)]"
      by (subst digits_of.simps) simp
    have "digits_of (n div 10) \<noteq> ''0''"
    proof
      assume z: "digits_of (n div 10) = ''0''"
      have "nat_of_digits (digits_of (n div 10)) = n div 10" by (rule nat_of_digits_digits_of)
      then have "n div 10 = 0" by (simp add: z nat_of_digits_def digit_val_def)
      with False show False by simp
    qed
    with 1 False have "hd (digits_of (n div 10)) \<noteq> CHR ''0''" by blast
    with d show ?thesis by (simp add: digits_of_nonempty)
  qed
qed

lemma takeWhile_blank: "takeWhile (\<lambda>c. c = a) s = replicate (length (takeWhile (\<lambda>c. c = a) s)) a"
  by (induction s) auto

lemma format_decimal_value: "format_8_3f (decimal_value neg m 3) = rjust 8 (fixed3 neg m)"
proof (cases "m = 0")
  case True
  have "round_half_even 0 = 0" using round_half_even_of_int [of 0] by simp
  with True show ?thesis by (simp add: decimal_value_def)
next
  case False
  let ?q = "(if neg then - 1 else 1) * (of_nat m / 10 ^ 3) :: rat"
  have pos: "0 < (of_nat m / 10 ^ 3 :: rat)" using False by simp
  have neg: "?q < 0 \<longleftrightarrow> neg" using pos by (cases neg) simp_all
  have "\<bar>?q\<bar> = of_nat m / 10 ^ 3" using pos by (cases neg) simp_all
  then have "\<bar>?q\<bar> * 1000 = of_nat m" by simp
  then have r: "nat (round_half_even (\<bar>?q\<bar> * 1000)) = m"
    by (simp add: round_half_even_of_nat)
  have "format_8_3f (Fin ?q) = rjust 8 (fixed3 neg m)"
    by (simp only: format_8_3f.simps r neg)
  with False show ?thesis by (simp only: decimal_value_def if_False)
qed

lemma three_digits_back:
  assumes "length fp = 3" "list_all is_digit fp" "m = n * 1000 + nat_of_digits fp"
  shows "[digit_char (m div 100 mod 10), digit_char (m div 10 mod 10), digit_char (m mod 10)] = fp"
proof -
  obtain a b c where fp: "fp = [a, b, c]"
    using assms(1) by (auto simp add: length_Suc_conv numeral_3_eq_3)
  have d: "is_digit a" "is_digit b" "is_digit c" using assms(2) fp by simp_all
  define x y z where "x = digit_val a" and "y = digit_val b" and "z = digit_val c"
  have lt: "x < 10" "y < 10" "z < 10" using d by (simp_all add: x_def y_def z_def digit_val_less)
  have m: "m = n * 1000 + (10 * (10 * x + y) + z)"
    using assms(3) fp by (simp add: nat_of_digits_def x_def y_def z_def)
  define j where "j = n * 10 + x"
  define k where "k = 10 * j + y"
  have e1: "m = 10 * k + z" by (simp add: m k_def j_def)
  have r1: "m mod 10 = z" using lt(3) by (simp add: e1)
  have q1: "m div 10 = k" using lt(3) by (simp add: e1)
  have r2: "m div 10 mod 10 = y" using lt(2) by (simp add: q1 k_def)
  have "m div 100 = m div 10 div 10" by (simp add: div_mult2_eq)
  also have "\<dots> = j" using lt(2) by (simp add: q1 k_def)
  finally have r3: "m div 100 mod 10 = x" using lt(1) by (simp add: j_def)
  from r1 r2 r3 show ?thesis
    using d by (simp add: fp x_def y_def z_def digit_char_digit_val)
qed

lemma fixed3_of_parts:
  assumes ip: "ip \<noteq> []" "list_all is_digit ip" "ip = ''0'' \<or> hd ip \<noteq> CHR ''0''"
    and fp: "length fp = 3" "list_all is_digit fp"
  shows "fixed3 neg (nat_of_digits (ip @ fp)) = (if neg then ''-'' else []) @ ip @ CHR ''.'' # fp"
proof -
  let ?m = "nat_of_digits (ip @ fp)"
  have m: "?m = nat_of_digits ip * 1000 + nat_of_digits fp"
    using fp(1) by (simp add: nat_of_digits_append)
  have "nat_of_digits fp < 10 ^ length fp" by (rule nat_of_digits_bound [OF fp(2)])
  then have lt: "nat_of_digits fp < 1000" using fp(1) by simp
  have "?m div 1000 = nat_of_digits ip" using lt by (simp add: m)
  then have "digits_of (?m div 1000) = ip" by (simp only: digits_of_nat_of_digits [OF ip])
  moreover have "[digit_char (?m div 100 mod 10), digit_char (?m div 10 mod 10), digit_char (?m mod 10)] = fp"
    by (rule three_digits_back [OF fp m])
  ultimately show ?thesis by (simp only: fixed3_shape)
qed

lemma fixed3_field_parts:
  assumes "fixed3_field s"
  obtains p neg ip fp where
    "s = replicate p (CHR '' '') @ (if neg then ''-'' else []) @ ip @ CHR ''.'' # fp"
    "ip \<noteq> []" "list_all is_digit ip" "ip = ''0'' \<or> hd ip \<noteq> CHR ''0''"
    "length fp = 3" "list_all is_digit fp" "length s = 8"
proof -
  define t where "t = dropWhile (\<lambda>c. c = CHR '' '') s"
  define u where "u = (case t of [] \<Rightarrow> [] | c # cs \<Rightarrow> if c = CHR ''-'' then cs else t)"
  define ip where "ip = takeWhile is_digit u"
  define r where "r = dropWhile is_digit u"
  from assms have f: "length s = 8" "ip \<noteq> []" "ip = ''0'' \<or> hd ip \<noteq> CHR ''0''"
    and rr: "case r of [] \<Rightarrow> False | c # fp \<Rightarrow> c = CHR ''.'' \<and> length fp = 3 \<and> list_all is_digit fp"
    unfolding fixed3_field_def Let_def t_def u_def ip_def r_def by simp_all
  from rr obtain fp where r: "r = CHR ''.'' # fp" and fp: "length fp = 3" "list_all is_digit fp"
    by (cases r) auto
  have u: "u = ip @ CHR ''.'' # fp" unfolding ip_def using r [unfolded r_def] by (metis takeWhile_dropWhile_id)
  have ipd: "list_all is_digit ip"
    unfolding ip_def list_all_iff by (metis set_takeWhileD)
  define neg where "neg = (t \<noteq> [] \<and> hd t = CHR ''-'')"
  have t: "t = (if neg then ''-'' else []) @ u"
  proof (cases t)
    case Nil
    then have "u = []" by (simp add: u_def)
    with u show ?thesis by simp
  next
    case (Cons c cs)
    then show ?thesis by (simp add: u_def neg_def)
  qed
  define p where "p = length (takeWhile (\<lambda>c. c = CHR '' '') s)"
  have "s = takeWhile (\<lambda>c. c = CHR '' '') s @ t" by (simp add: t_def)
  then have "s = replicate p (CHR '' '') @ t"
    using takeWhile_blank [of "CHR '' ''" s] by (simp add: p_def)
  then have "s = replicate p (CHR '' '') @ (if neg then ''-'' else []) @ ip @ CHR ''.'' # fp"
    by (simp only: t u)
  then show ?thesis using that f ipd fp by blast
qed

text \<open>
  Claim C7. For every coordinate field of the data model (8 characters: blanks on the left,
  an optional minus sign, an integer part without a superfluous leading zero, a point, three
  decimals), parsing the field and formatting the number gives the field again.
\<close>

theorem coordinate_roundtrip:
  assumes "fixed3_field s"
  shows "\<exists>v. parse_coordinate s = Inr v \<and> format_coordinate v = s"
proof -
  from assms obtain p neg ip fp where
    s: "s = replicate p (CHR '' '') @ (if neg then ''-'' else []) @ ip @ CHR ''.'' # fp"
    and ip: "ip \<noteq> []" "list_all is_digit ip" "ip = ''0'' \<or> hd ip \<noteq> CHR ''0''"
    and fp: "length fp = 3" "list_all is_digit fp" and len: "length s = 8"
    by (rule fixed3_field_parts)
  let ?body = "(if neg then ''-'' else []) @ ip @ CHR ''.'' # fp"
  let ?v = "decimal_value neg (nat_of_digits (ip @ fp)) 3"
  have "py_float s = Inr (decimal_value neg (nat_of_digits (ip @ fp)) (length fp))"
    unfolding s by (rule py_float_decimal [OF ip(1,2) fp(2)])
  then have parse: "parse_coordinate s = Inr ?v" by (simp add: parse_coordinate_def fp(1))
  have "format_8_3f ?v = rjust 8 (fixed3 neg (nat_of_digits (ip @ fp)))"
    by (rule format_decimal_value)
  also have "\<dots> = rjust 8 ?body" by (simp only: fixed3_of_parts [OF ip fp])
  also have "\<dots> = s"
  proof -
    have "p + length ?body = 8" using len by (simp add: s)
    then have "8 - length ?body = p" by simp
    then show ?thesis by (simp only: rjust_def s)
  qed
  finally have "format_coordinate ?v = s" by (simp add: format_coordinate_def)
  with parse show ?thesis by blast
qed

theorem coordinate_roundtrip_witness:
  "fixed3_field ''  -5.100'' \<and> fixed3_field ''  -0.000'' \<and> fixed3_field ''9999.999''
   \<and> (\<exists>v. parse_coordinate ''  -5.100'' = Inr v \<and> format_coordinate v = ''  -5.100'')
   \<and> (\<exists>v. parse_coordinate ''  -0.000'' = Inr v \<and> format_coordinate v = ''  -0.000'')
   \<and> (\<exists>v. parse_coordinate ''9999.999'' = Inr v \<and> format_coordinate v = ''9999.999'')"
proof -
  have a: "fixed3_field ''  -5.100''" "fixed3_field ''  -0.000''" "fixed3_field ''9999.999''"
    by (simp_all add: fixed3_field_def is_digit_def)
  show ?thesis
    using a coordinate_roundtrip [OF a(1)] coordinate_roundtrip [OF a(2)] coordinate_roundtrip [OF a(3)]
    by simp
qed

lemma dropWhile_blank_replicate:
  "t \<noteq> [] \<Longrightarrow> hd t \<noteq> CHR '' '' \<Longrightarrow>
     dropWhile (\<lambda>c. c = CHR '' '') (replicate p (CHR '' '') @ t) = t"
  by (induction p) (auto simp add: dropWhile_eq_self_iff)

lemma fixed3_field_rjust:
  assumes "length (fixed3 neg k) \<le> 8"
  shows "fixed3_field (rjust 8 (fixed3 neg k))"
proof -
  let ?D = "digits_of (k div 1000)"
  let ?F = "[digit_char (k div 100 mod 10), digit_char (k div 10 mod 10), digit_char (k mod 10)]"
  let ?u = "?D @ CHR ''.'' # ?F"
  let ?t = "(if neg then ''-'' else []) @ ?u"
  let ?s = "rjust 8 (fixed3 neg k)"
  have D: "list_all is_digit ?D" "?D \<noteq> []" by (simp_all add: digits_of_all_digits digits_of_nonempty)
  have hdD: "is_digit (hd ?D)" using D by (cases ?D) auto
  have F: "list_all is_digit ?F" by (simp add: is_digit_digit_char)
  have s: "?s = replicate (8 - length ?t) (CHR '' '') @ ?t" by (simp add: rjust_def fixed3_shape)
  have len: "length ?s = 8" using assms by (simp add: length_rjust)
  have hdu: "hd ?u = hd ?D" using D(2) by simp
  have hdt: "hd ?t \<noteq> CHR '' ''"
    using hdD is_digit_not_special(5) [of "hd ?D"] hdu by (cases neg) auto
  have t: "dropWhile (\<lambda>c. c = CHR '' '') ?s = ?t"
    unfolding s by (rule dropWhile_blank_replicate) (simp, rule hdt)
  have u: "(case ?t of [] \<Rightarrow> [] | c # cs \<Rightarrow> if c = CHR ''-'' then cs else ?t) = ?u"
  proof (cases neg)
    case True
    then show ?thesis by simp
  next
    case False
    obtain c cs where cs: "?u = c # cs" "c = hd ?D" using D(2) by (cases ?D) auto
    have "is_digit c" using hdD cs(2) by simp
    then have "c \<noteq> CHR ''-''" by (rule is_digit_not_special(3))
    with False cs(1) show ?thesis by simp
  qed
  have ip: "takeWhile is_digit ?u = ?D" by (rule takeWhile_digits_point [OF D(1)])
  have r: "dropWhile is_digit ?u = CHR ''.'' # ?F" by (rule dropWhile_digits_point [OF D(1)])
  show ?thesis
    unfolding fixed3_field_def Let_def t u ip r
    using len D(2) digits_of_canonical [of "k div 1000"] F by simp
qed

lemma fixed3_field_format:
  assumes "in_field x"
  shows "fixed3_field (format_8_3f x)"
proof -
  have len: "length (format_8_3f x) = 8" by (rule length_format_in_field [OF assms])
  show ?thesis
  proof (cases x)
    case (Fin q)
    let ?k = "nat (round_half_even (\<bar>q\<bar> * 1000))"
    have "max 8 (length (fixed3 (q < 0) ?k)) = 8" using len Fin by (simp add: length_rjust)
    then have "length (fixed3 (q < 0) ?k) \<le> 8" by linarith
    then show ?thesis using Fin by (simp add: fixed3_field_rjust)
  next
    case NegZero
    have "max 8 (length (fixed3 True 0)) = 8" using len NegZero by (simp add: length_rjust)
    then have "length (fixed3 True 0) \<le> 8" by linarith
    then show ?thesis using NegZero by (simp add: fixed3_field_rjust)
  next
    case (Infty neg)
    with assms show ?thesis by (simp add: in_field_def)
  next
    case NaN
    with assms show ?thesis by (simp add: in_field_def)
  qed
qed

text \<open>
  Claim C8, as amended. For every value that fits the field (finite, strictly between
  -999.9995 and 9999.9995), \<^verbatim>\<open>format_coordinate\<close> gives exactly 8 characters in the shape of
  the data model's field: blanks on the left, an optional minus sign, the integer part, a
  point and three decimals; read back, it is the value rounded to three decimals, at most
  0.0005 away. The number 12.345 is rendered with two leading blanks, \<^verbatim>\<open>-5.1\<close> as two blanks
  and \<^verbatim>\<open>-5.100\<close>.
\<close>

theorem format_coordinate_field:
  assumes "in_field x"
  shows "length (format_coordinate x) = 8
       \<and> fixed3_field (format_coordinate x)
       \<and> parse_coordinate (format_coordinate x) = Inr (rounded3 x)
       \<and> \<bar>fval (rounded3 x) - fval x\<bar> \<le> 1 / 2000"
proof -
  have fin: "is_finite x" by (rule in_field_finite [OF assms])
  have "length (format_8_3f x) = 8" by (rule length_format_in_field [OF assms])
  moreover have "fixed3_field (format_8_3f x)" by (rule fixed3_field_format [OF assms])
  moreover have "py_float (format_8_3f x) = Inr (rounded3 x)" by (rule py_float_format_finite [OF fin])
  moreover have "\<bar>fval (rounded3 x) - fval x\<bar> \<le> 1 / 2000" by (rule rounded3_close [OF fin])
  ultimately show ?thesis
    unfolding format_coordinate_def parse_coordinate_def by blast
qed

theorem format_coordinate_field_witness:
  "in_field (Fin (- (51 / 10))) \<and> in_field (Fin (12345 / 1000))
   \<and> format_coordinate (Fin (- (51 / 10))) = ''  -5.100''
   \<and> format_coordinate (Fin (12345 / 1000)) = ''  12.345''
   \<and> length (format_coordinate (Fin (- (51 / 10)))) = 8
   \<and> fixed3_field (format_coordinate (Fin (12345 / 1000)))
   \<and> parse_coordinate (format_coordinate (Fin (- (51 / 10)))) = Inr (rounded3 (Fin (- (51 / 10))))"
proof -
  have a: "in_field (Fin (- (51 / 10)))" "in_field (Fin (12345 / 1000))"
    by (simp_all add: in_field_def)
  have b: "format_coordinate (Fin (- (51 / 10))) = ''  -5.100''"
    "format_coordinate (Fin (12345 / 1000)) = ''  12.345''"
    by (simp_all add: format_coordinate_def format_eval)
  show ?thesis
    using a b format_coordinate_field [OF a(1)] format_coordinate_field [OF a(2)]
    by simp
qed

text \<open>The rendering of 12.345 has 8 characters, two of them leading blanks; it is not the
  7-character string with one leading blank.\<close>

theorem format_example_counterexample:
  "format_coordinate (Fin (12345 / 1000)) = ''  12.345''
   \<and> format_coordinate (Fin (12345 / 1000)) \<noteq> '' 12.345''"
  by (simp add: format_coordinate_def format_eval)


end
